theory Spec2Isabelle
  imports Main "HOL-Library.Word"
begin

section \<open>Data model of \<^verbatim>\<open>GenericHashContainer<sizeType, hashType>\<close>\<close>

text \<open>
  The two template parameters are unsigned integer types. They are modelled by the type
  variables \<open>'s\<close> (the width of \<^verbatim>\<open>sizeType\<close>) and \<open>'h\<close> (the width of
  \<^verbatim>\<open>hashType\<close>); a hash is a \<^verbatim>\<open>size_t\<close>, which the header's static
  assertion fixes at 64 bits. The header also asserts
  \<^verbatim>\<open>sizeof(sizeType) <= sizeof(size_t)\<close> and
  \<^verbatim>\<open>sizeof(hashType) < sizeof(size_t)\<close>; the theorems that depend on the first
  take \<open>LENGTH('s) \<le> 64\<close> as a hypothesis, and none depends on the second.

  C++ leaves an out-of-range array access, a remainder by zero and a failed
  \<^verbatim>\<open>assert\<close> without a result. The model makes each of them a value of
  \<open>error\<close>, next to the exception the constructor throws for an entry count that is
  too large and the one the allocation of an array throws.
  The flag \<open>debug\<close> that most operations take is true when \<^verbatim>\<open>NDEBUG\<close> is
  not defined: it enables the assertions and the sentinel poisoning under
  \<^verbatim>\<open>#ifndef NDEBUG\<close>.
\<close>

datatype error = CapacityError | AllocationError | OutOfBounds | DivisionByZero | AssertionFailed

record (overloaded) ('s, 'h) Node =
  hash :: "'h word"
  "next" :: "'s word"

record (overloaded) 's Bucket =
  first :: "'s word"

record (overloaded) ('s, 'h) container =
  m_bucketCount :: "'s word"
  m_nodeCount :: "'s word"
  m_bucketList :: "'s Bucket list"
  m_nodeList :: "('s, 'h) Node list"

text \<open>A global or bucket-scoped cursor: \<^verbatim>\<open>Iterator\<close> with its two members. A search
  cursor (\<^verbatim>\<open>SearchIterator\<close>) has the position only and is modelled by that word.
  A cursor is valid (\<^verbatim>\<open>operator bool\<close>) when its position is not the sentinel.\<close>

record (overloaded) 's Iterator =
  m_position :: "'s word"
  m_bucket :: "'s word"

text \<open>\<^verbatim>\<open>memset\<close> with the byte 0xFF sets every field to the maximum of its type.\<close>

definition poisonNode :: "('s::len, 'h::len) Node" where
  "poisonNode = \<lparr>hash = - 1, next = - 1\<rparr>"

definition poisonBucket :: "('s::len) Bucket" where
  "poisonBucket = \<lparr>first = - 1\<rparr>"

section \<open>Hash splitting and capacity\<close>

definition high :: "64 word \<Rightarrow> 'h::len word" where
  "high h = ucast (drop_bit (64 - LENGTH('h)) h)"

definition low :: "64 word \<Rightarrow> 's::len word" where
  "low h = ucast h"

definition computeBucketCount :: "64 word \<Rightarrow> error + 's::len word" where
  "computeBucketCount entries =
     (let bucketFactor = (2 :: 64 word) in
      if entries \<ge> ucast (- 1 :: 's word) div bucketFactor then Inl CapacityError
      else Inr (ucast (bucketFactor * entries)))"

definition nodes :: "('s::len, 'h::len) container \<Rightarrow> 's word" where
  "nodes c = m_nodeCount c"

definition buckets :: "('s::len, 'h::len) container \<Rightarrow> 's word" where
  "buckets c = m_bucketCount c"

section \<open>clear and the constructor\<close>

text \<open>\<^verbatim>\<open>clear\<close> overwrites the first \<^verbatim>\<open>m_bucketCount\<close> buckets (and, in a debug
  build, the first \<^verbatim>\<open>m_nodeCount\<close> nodes) with 0xFF bytes.\<close>

definition clear_hc :: "bool \<Rightarrow> ('s::len, 'h::len) container \<Rightarrow> error + ('s, 'h) container" where
  "clear_hc debug c =
     (if debug \<and> length (m_nodeList c) < unat (m_nodeCount c) then Inl OutOfBounds
      else if length (m_bucketList c) < unat (m_bucketCount c) then Inl OutOfBounds
      else Inr (c\<lparr>m_nodeList :=
                    (if debug
                     then replicate (unat (m_nodeCount c)) poisonNode
                            @ drop (unat (m_nodeCount c)) (m_nodeList c)
                     else m_nodeList c),
                  m_bucketList :=
                    replicate (unat (m_bucketCount c)) poisonBucket
                      @ drop (unat (m_bucketCount c)) (m_bucketList c)\<rparr>))"

text \<open>The constructor. Its member initialisers compute the two counts and then allocate
  the bucket array and the node array with \<^verbatim>\<open>std::make_unique<T[]>(n)\<close>, which
  throws (\<^verbatim>\<open>std::bad_array_new_length\<close> or \<^verbatim>\<open>std::bad_alloc\<close>) when the array
  cannot be had. The allocator belongs to the environment: \<open>heap\<close> is the size in
  bytes of the largest array it grants, which is below \<open>2 ^ 64\<close> on every machine, and
  the two structs have the sizes the usual ABIs give them (each field aligned to its own
  size). An allocation that succeeds value-initialises, so both arrays start zeroed, and
  the body calls \<^verbatim>\<open>clear\<close>.\<close>

definition create :: "bool \<Rightarrow> nat \<Rightarrow> 64 word \<Rightarrow> error + ('s::len, 'h::len) container" where
  "create debug heap entries =
     (case computeBucketCount entries of
        Inl e \<Rightarrow> Inl e
      | Inr bucketCount \<Rightarrow>
          (let nodeCount = (ucast entries :: 's word);
               sizeofBucket = LENGTH('s) div 8;
               sizeofNode = 2 * (max LENGTH('s) LENGTH('h) div 8) in
           if heap < unat bucketCount * sizeofBucket then Inl AllocationError
           else if heap < unat nodeCount * sizeofNode then Inl AllocationError
           else
             clear_hc debug
               \<lparr>m_bucketCount = bucketCount,
                m_nodeCount = nodeCount,
                m_bucketList = replicate (unat bucketCount) \<lparr>first = 0\<rparr>,
                m_nodeList = replicate (unat nodeCount) \<lparr>hash = 0, next = 0\<rparr>\<rparr>))"

section \<open>insert and the two-phase insertion\<close>

definition insert_hc ::
  "bool \<Rightarrow> ('s::len, 'h::len) container \<Rightarrow> 64 word \<Rightarrow> 's word \<Rightarrow> error + ('s, 'h) container" where
  "insert_hc debug c h val =
     (if debug \<and> \<not> unat val < length (m_nodeList c) then Inl OutOfBounds
      else if debug \<and> next (m_nodeList c ! unat val) \<noteq> - 1 then Inl AssertionFailed
      else if debug \<and> hash (m_nodeList c ! unat val) \<noteq> - 1 then Inl AssertionFailed
      else if m_bucketCount c = 0 then Inl DivisionByZero
      else
        (let bucket = low h mod m_bucketCount c in
         if \<not> unat bucket < length (m_bucketList c) then Inl OutOfBounds
         else if \<not> unat val < length (m_nodeList c) then Inl OutOfBounds
         else Inr (c\<lparr>m_nodeList := (m_nodeList c)
                        [unat val := \<lparr>hash = high h,
                                      next = first (m_bucketList c ! unat bucket)\<rparr>],
                     m_bucketList := (m_bucketList c)[unat bucket := \<lparr>first = val\<rparr>]\<rparr>)))"

definition emplace ::
  "bool \<Rightarrow> ('s::len, 'h::len) container \<Rightarrow> 64 word \<Rightarrow> 's word \<Rightarrow> error + ('s, 'h) container" where
  "emplace debug c h val =
     (if debug \<and> val = - 1 then Inl AssertionFailed
      else if debug \<and> \<not> unat val < length (m_nodeList c) then Inl OutOfBounds
      else if debug \<and> next (m_nodeList c ! unat val) \<noteq> - 1 then Inl AssertionFailed
      else if m_bucketCount c = 0 then Inl DivisionByZero
      else if \<not> unat val < length (m_nodeList c) then Inl OutOfBounds
      else Inr (c\<lparr>m_nodeList := (m_nodeList c)
                     [unat val := \<lparr>hash = high h, next = low h mod m_bucketCount c\<rparr>]\<rparr>))"

definition insertEmplaced ::
  "bool \<Rightarrow> ('s::len, 'h::len) container \<Rightarrow> 's word \<Rightarrow> error + ('s, 'h) container" where
  "insertEmplaced debug c val =
     (if debug \<and> val = - 1 then Inl AssertionFailed
      else if \<not> unat val < length (m_nodeList c) then Inl OutOfBounds
      else if debug \<and> next (m_nodeList c ! unat val) = - 1 then Inl AssertionFailed
      else
        (let bucket = next (m_nodeList c ! unat val) in
         if \<not> unat bucket < length (m_bucketList c) then Inl OutOfBounds
         else Inr (c\<lparr>m_nodeList := (m_nodeList c)
                        [unat val := (m_nodeList c ! unat val)
                                       \<lparr>next := first (m_bucketList c ! unat bucket)\<rparr>],
                     m_bucketList := (m_bucketList c)[unat bucket := \<lparr>first = val\<rparr>]\<rparr>)))"

section \<open>Lookup\<close>

text \<open>\<^verbatim>\<open>findNext(hashType, sizeType)\<close>: the chain walk. On a cyclic chain without a
  match the loop never ends, so the model is a partial function and \<open>None\<close> stands for
  a walk that does not return.\<close>

partial_function (option) findNext2 ::
  "('s::len, 'h::len) container \<Rightarrow> 'h word \<Rightarrow> 's word \<Rightarrow> (error + 's word) option" where
  "findNext2 c h current =
     (if current \<noteq> - 1 then
        (if \<not> unat current < length (m_nodeList c) then Some (Inl OutOfBounds)
         else if hash (m_nodeList c ! unat current) = h then Some (Inr current)
         else findNext2 c h (next (m_nodeList c ! unat current)))
      else Some (Inr (- 1)))"

declare findNext2.simps [code]

text \<open>\<^verbatim>\<open>findNext(sizeType)\<close>, the step of a search cursor.\<close>

definition findNext ::
  "('s::len, 'h::len) container \<Rightarrow> 's word \<Rightarrow> (error + 's word) option" where
  "findNext c current =
     (if \<not> unat current < length (m_nodeList c) then Some (Inl OutOfBounds)
      else findNext2 c (hash (m_nodeList c ! unat current)) (next (m_nodeList c ! unat current)))"

text \<open>\<^verbatim>\<open>find(hashType, sizeType)\<close>, the internal lookup in a given bucket.\<close>

definition find2 ::
  "('s::len, 'h::len) container \<Rightarrow> 'h word \<Rightarrow> 's word \<Rightarrow> (error + 's word) option" where
  "find2 c h pos =
     (if \<not> unat pos < length (m_bucketList c) then Some (Inl OutOfBounds)
      else findNext2 c h (first (m_bucketList c ! unat pos)))"

definition find_hc ::
  "('s::len, 'h::len) container \<Rightarrow> 64 word \<Rightarrow> (error + 's word) option" where
  "find_hc c h =
     (if m_bucketCount c = 0 then Some (Inl DivisionByZero)
      else find2 c (high h) (low h mod m_bucketCount c))"

definition findEmplaced ::
  "bool \<Rightarrow> ('s::len, 'h::len) container \<Rightarrow> 's word \<Rightarrow> (error + 's word) option" where
  "findEmplaced debug c pos =
     (if debug \<and> pos = - 1 then Some (Inl AssertionFailed)
      else if \<not> unat pos < length (m_nodeList c) then Some (Inl OutOfBounds)
      else if debug \<and> next (m_nodeList c ! unat pos) = - 1 then Some (Inl AssertionFailed)
      else find2 c (hash (m_nodeList c ! unat pos)) (next (m_nodeList c ! unat pos)))"

section \<open>remove\<close>

text \<open>The predecessor scan of \<^verbatim>\<open>remove\<close>; it has no \<^verbatim>\<open>break\<close> and goes on to the
  end of the chain after relinking.\<close>

partial_function (option) remove_loop ::
  "('s::len, 'h::len) Node list \<Rightarrow> 's word \<Rightarrow> 's word \<Rightarrow> (error + ('s, 'h) Node list) option" where
  "remove_loop nodeList val current =
     (if current \<noteq> - 1 then
        (if \<not> unat current < length nodeList then Some (Inl OutOfBounds)
         else if next (nodeList ! unat current) = val then
           (if \<not> unat val < length nodeList then Some (Inl OutOfBounds)
            else remove_loop
                   (nodeList[unat current :=
                      (nodeList ! unat current)\<lparr>next := next (nodeList ! unat val)\<rparr>])
                   val
                   (next (nodeList ! unat val)))
         else remove_loop nodeList val (next (nodeList ! unat current)))
      else Some (Inr nodeList))"

declare remove_loop.simps [code]

definition remove_hc ::
  "bool \<Rightarrow> ('s::len, 'h::len) container \<Rightarrow> 64 word \<Rightarrow> 's word
     \<Rightarrow> (error + ('s, 'h) container) option" where
  "remove_hc debug c h val =
     (if \<not> unat val < length (m_nodeList c) then Some (Inl OutOfBounds)
      else if hash (m_nodeList c ! unat val) \<noteq> high h then Some (Inr c)
      else if m_bucketCount c = 0 then Some (Inl DivisionByZero)
      else
        (let bucket = low h mod m_bucketCount c in
         if \<not> unat bucket < length (m_bucketList c) then Some (Inl OutOfBounds)
         else
           (let current = first (m_bucketList c ! unat bucket) in
            if current = val then
              Some (Inr (c\<lparr>m_bucketList := (m_bucketList c)
                              [unat bucket := \<lparr>first = next (m_nodeList c ! unat val)\<rparr>],
                           m_nodeList := (if debug then (m_nodeList c)[unat val := poisonNode]
                                          else m_nodeList c)\<rparr>))
            else
              (case remove_loop (m_nodeList c) val current of
                 None \<Rightarrow> None
               | Some (Inl e) \<Rightarrow> Some (Inl e)
               | Some (Inr nodeList) \<Rightarrow>
                   Some (Inr (c\<lparr>m_nodeList := (if debug then nodeList[unat val := poisonNode]
                                               else nodeList)\<rparr>))))))"

section \<open>Global and bucket-scoped cursors\<close>

definition end_hc :: "('s::len) Iterator" where
  "end_hc = \<lparr>m_position = - 1, m_bucket = 0\<rparr>"

definition localEnd :: "('s::len) Iterator" where
  "localEnd = \<lparr>m_position = - 1, m_bucket = 0\<rparr>"

text \<open>The bucket scan of \<^verbatim>\<open>begin\<close>. The bucket index is compared with
  \<^verbatim>\<open>m_bucketCount\<close> only after it has been incremented; the distance to
  \<^verbatim>\<open>m_bucketCount\<close> (modulo the width) decreases, so the scan always ends.\<close>

function begin_loop :: "('s::len, 'h::len) container \<Rightarrow> 's word \<Rightarrow> error + 's Iterator" where
  "begin_loop c bucket =
     (if \<not> unat bucket < length (m_bucketList c) then Inl OutOfBounds
      else if first (m_bucketList c ! unat bucket) = - 1 then
        (if bucket + 1 = m_bucketCount c then Inr end_hc
         else begin_loop c (bucket + 1))
      else Inr \<lparr>m_position = first (m_bucketList c ! unat bucket), m_bucket = bucket\<rparr>)"
  by pat_completeness auto
termination
proof (relation "measure (\<lambda>(c, bucket). unat (m_bucketCount c - (bucket + 1)))")
  show "wf (measure (\<lambda>(c :: ('s::len, 'h::len) container, bucket).
      unat (m_bucketCount c - (bucket + 1))))"
    by simp
next
  fix c :: "('s::len, 'h::len) container" and bucket :: "'s word"
  assume differ: "bucket + 1 \<noteq> m_bucketCount c"
  let ?d = "m_bucketCount c - (bucket + 1)"
  from differ have nz: "?d \<noteq> 0"
    by simp
  then have pos: "0 < unat ?d"
    by (simp add: unat_gt_0)
  from nz have pred: "unat (?d - 1) = unat ?d - 1"
    by (rule unat_minus_one)
  have "m_bucketCount c - (bucket + 1 + 1) = ?d - 1"
    by simp
  with pos pred have "unat (m_bucketCount c - (bucket + 1 + 1)) < unat ?d"
    by (simp only:)
  then show "((c, bucket + 1), (c, bucket)) \<in>
      measure (\<lambda>(c, bucket). unat (m_bucketCount c - (bucket + 1)))"
    by simp
qed

declare begin_loop.simps [simp del]

definition begin_hc :: "('s::len, 'h::len) container \<Rightarrow> error + 's Iterator" where
  "begin_hc c = begin_loop c 0"

definition localBegin :: "('s::len, 'h::len) container \<Rightarrow> 's word \<Rightarrow> error + 's Iterator" where
  "localBegin c index =
     (if \<not> unat index < length (m_bucketList c) then Inl OutOfBounds
      else Inr \<lparr>m_position = first (m_bucketList c ! unat index), m_bucket = index\<rparr>)"

text \<open>The bucket scan of \<^verbatim>\<open>nextElement\<close>: \<^verbatim>\<open>while (++bucket != m_bucketCount)\<close>.
  The result is the new position and the updated bucket (a reference parameter in
  the source).\<close>

function nextElement_loop ::
  "('s::len, 'h::len) container \<Rightarrow> 's word \<Rightarrow> error + 's Iterator" where
  "nextElement_loop c bucket =
     (if bucket + 1 \<noteq> m_bucketCount c then
        (if \<not> unat (bucket + 1) < length (m_bucketList c) then Inl OutOfBounds
         else if first (m_bucketList c ! unat (bucket + 1)) \<noteq> - 1 then
           Inr \<lparr>m_position = first (m_bucketList c ! unat (bucket + 1)), m_bucket = bucket + 1\<rparr>
         else nextElement_loop c (bucket + 1))
      else Inr \<lparr>m_position = - 1, m_bucket = bucket + 1\<rparr>)"
  by pat_completeness auto
termination
proof (relation "measure (\<lambda>(c, bucket). unat (m_bucketCount c - (bucket + 1)))")
  show "wf (measure (\<lambda>(c :: ('s::len, 'h::len) container, bucket).
      unat (m_bucketCount c - (bucket + 1))))"
    by simp
next
  fix c :: "('s::len, 'h::len) container" and bucket :: "'s word"
  assume differ: "bucket + 1 \<noteq> m_bucketCount c"
  let ?d = "m_bucketCount c - (bucket + 1)"
  from differ have nz: "?d \<noteq> 0"
    by simp
  then have pos: "0 < unat ?d"
    by (simp add: unat_gt_0)
  from nz have pred: "unat (?d - 1) = unat ?d - 1"
    by (rule unat_minus_one)
  have "m_bucketCount c - (bucket + 1 + 1) = ?d - 1"
    by simp
  with pos pred have "unat (m_bucketCount c - (bucket + 1 + 1)) < unat ?d"
    by (simp only:)
  then show "((c, bucket + 1), (c, bucket)) \<in>
      measure (\<lambda>(c, bucket). unat (m_bucketCount c - (bucket + 1)))"
    by simp
qed

declare nextElement_loop.simps [simp del]

definition nextElement ::
  "('s::len, 'h::len) container \<Rightarrow> 's word \<Rightarrow> 's word \<Rightarrow> error + 's Iterator" where
  "nextElement c current bucket =
     (if \<not> unat current < length (m_nodeList c) then Inl OutOfBounds
      else if next (m_nodeList c ! unat current) \<noteq> - 1 then
        Inr \<lparr>m_position = next (m_nodeList c ! unat current), m_bucket = bucket\<rparr>
      else nextElement_loop c bucket)"

text \<open>\<^verbatim>\<open>AbstractIterator::operator==\<close> compares the positions only.\<close>

definition iterator_eq :: "('s::len) Iterator \<Rightarrow> 's Iterator \<Rightarrow> bool" where
  "iterator_eq a b = (m_position a = m_position b)"

text \<open>\<^verbatim>\<open>Iterator::operator++\<close> and \<^verbatim>\<open>LocalIterator::operator++\<close>.\<close>

definition Iterator_inc ::
  "('s::len, 'h::len) container \<Rightarrow> 's Iterator \<Rightarrow> error + 's Iterator" where
  "Iterator_inc c it = nextElement c (m_position it) (m_bucket it)"

definition LocalIterator_inc ::
  "('s::len, 'h::len) container \<Rightarrow> 's Iterator \<Rightarrow> error + 's Iterator" where
  "LocalIterator_inc c it =
     (let currentBucket = m_bucket it in
      case Iterator_inc c it of
        Inl e \<Rightarrow> Inl e
      | Inr it' \<Rightarrow>
          Inr (if m_bucket it' \<noteq> currentBucket then it'\<lparr>m_position := - 1\<rparr> else it'))"

section \<open>Callers: running a cursor to its end, and sequences of operations\<close>

text \<open>The loop \<^verbatim>\<open>for (auto it = ...; it; ++it)\<close> of a caller that collects the
  slots a search cursor yields, starting from the position \<open>pos\<close>.\<close>

partial_function (option) searchAll ::
  "('s::len, 'h::len) container \<Rightarrow> 's word \<Rightarrow> (error + 's word list) option" where
  "searchAll c pos =
     (if pos = - 1 then Some (Inr [])
      else
        (case findNext c pos of
           None \<Rightarrow> None
         | Some (Inl e) \<Rightarrow> Some (Inl e)
         | Some (Inr pos') \<Rightarrow>
             Option.bind (searchAll c pos') (\<lambda>r. Some (map_sum id (Cons pos) r))))"

declare searchAll.simps [code]

text \<open>All slots that iterating \<^verbatim>\<open>find(hash)\<close> and \<^verbatim>\<open>findEmplaced(pos)\<close> yield.\<close>

definition findAll ::
  "('s::len, 'h::len) container \<Rightarrow> 64 word \<Rightarrow> (error + 's word list) option" where
  "findAll c h =
     (case find_hc c h of
        None \<Rightarrow> None
      | Some (Inl e) \<Rightarrow> Some (Inl e)
      | Some (Inr pos) \<Rightarrow> searchAll c pos)"

definition findEmplacedAll ::
  "bool \<Rightarrow> ('s::len, 'h::len) container \<Rightarrow> 's word \<Rightarrow> (error + 's word list) option" where
  "findEmplacedAll debug c val =
     (case findEmplaced debug c val of
        None \<Rightarrow> None
      | Some (Inl e) \<Rightarrow> Some (Inl e)
      | Some (Inr pos) \<Rightarrow> searchAll c pos)"

text \<open>The same loop for a global cursor and for a bucket-scoped cursor.\<close>

partial_function (option) iterateAll ::
  "('s::len, 'h::len) container \<Rightarrow> 's Iterator \<Rightarrow> (error + 's word list) option" where
  "iterateAll c it =
     (if m_position it = - 1 then Some (Inr [])
      else
        (case Iterator_inc c it of
           Inl e \<Rightarrow> Some (Inl e)
         | Inr it' \<Rightarrow>
             Option.bind (iterateAll c it') (\<lambda>r. Some (map_sum id (Cons (m_position it)) r))))"

declare iterateAll.simps [code]

partial_function (option) localAll ::
  "('s::len, 'h::len) container \<Rightarrow> 's Iterator \<Rightarrow> (error + 's word list) option" where
  "localAll c it =
     (if m_position it = - 1 then Some (Inr [])
      else
        (case LocalIterator_inc c it of
           Inl e \<Rightarrow> Some (Inl e)
         | Inr it' \<Rightarrow>
             Option.bind (localAll c it') (\<lambda>r. Some (map_sum id (Cons (m_position it)) r))))"

declare localAll.simps [code]

definition traverse ::
  "('s::len, 'h::len) container \<Rightarrow> (error + 's word list) option" where
  "traverse c = (case begin_hc c of Inl e \<Rightarrow> Some (Inl e) | Inr it \<Rightarrow> iterateAll c it)"

definition traverseBucket ::
  "('s::len, 'h::len) container \<Rightarrow> 's word \<Rightarrow> (error + 's word list) option" where
  "traverseBucket c index =
     (case localBegin c index of Inl e \<Rightarrow> Some (Inl e) | Inr it \<Rightarrow> localAll c it)"

text \<open>The mutating operations of the interface, and a caller that performs a list of
  them, stopping at the first one that fails.\<close>

datatype 'v op =
    Insert "64 word" 'v
  | Emplace "64 word" 'v
  | InsertEmplaced 'v
  | Remove "64 word" 'v
  | Clear

fun apply_op ::
  "bool \<Rightarrow> ('s::len, 'h::len) container \<Rightarrow> 's word op \<Rightarrow> (error + ('s, 'h) container) option" where
  "apply_op debug c (Insert h val) = Some (insert_hc debug c h val)"
| "apply_op debug c (Emplace h val) = Some (emplace debug c h val)"
| "apply_op debug c (InsertEmplaced val) = Some (insertEmplaced debug c val)"
| "apply_op debug c (Remove h val) = remove_hc debug c h val"
| "apply_op debug c Clear = Some (clear_hc debug c)"

fun run ::
  "bool \<Rightarrow> ('s::len, 'h::len) container \<Rightarrow> 's word op list \<Rightarrow> (error + ('s, 'h) container) option" where
  "run debug c [] = Some (Inr c)"
| "run debug c (x # xs) =
     (case apply_op debug c x of
        None \<Rightarrow> None
      | Some (Inl e) \<Rightarrow> Some (Inl e)
      | Some (Inr c') \<Rightarrow> run debug c' xs)"

definition build ::
  "bool \<Rightarrow> nat \<Rightarrow> 64 word \<Rightarrow> 's word op list
     \<Rightarrow> (error + ('s::len, 'h::len) container) option" where
  "build debug heap entries ops =
     (case create debug heap entries of Inl e \<Rightarrow> Some (Inl e) | Inr c \<Rightarrow> run debug c ops)"

section \<open>The caller's obligations\<close>

text \<open>
  The header asks the caller to use every slot for at most one entry at a time, to
  remove an entry with the hash it was inserted with, and to call
  \<^verbatim>\<open>insertEmplaced\<close> only on an emplaced slot. The entries a caller has made are
  tracked here next to the container: the linked ones, most recent first, and the
  emplaced ones that are not linked yet. \<open>track\<close> is \<open>None\<close> as soon as an
  operation breaks an obligation.
\<close>

type_synonym 's entries = "(64 word \<times> 's word) list \<times> (64 word \<times> 's word) list"

fun track_op :: "nat \<Rightarrow> ('s::len) entries \<Rightarrow> 's word op \<Rightarrow> 's entries option" where
  "track_op n (linked, emplaced) (Insert h val) =
     (if unat val < n \<and> val \<notin> snd ` set linked \<and> val \<notin> snd ` set emplaced
      then Some ((h, val) # linked, emplaced) else None)"
| "track_op n (linked, emplaced) (Emplace h val) =
     (if unat val < n \<and> val \<notin> snd ` set linked \<and> val \<notin> snd ` set emplaced
      then Some (linked, (h, val) # emplaced) else None)"
| "track_op n (linked, emplaced) (InsertEmplaced val) =
     (case List.find (\<lambda>e. snd e = val) emplaced of
        None \<Rightarrow> None
      | Some e \<Rightarrow> Some (e # linked, filter (\<lambda>e. snd e \<noteq> val) emplaced))"
| "track_op n (linked, emplaced) (Remove h val) =
     (if (h, val) \<in> set linked then Some (filter (\<lambda>e. snd e \<noteq> val) linked, emplaced)
      else None)"
| "track_op n (linked, emplaced) Clear = Some ([], [])"

fun track :: "nat \<Rightarrow> ('s::len) entries \<Rightarrow> 's word op list \<Rightarrow> 's entries option" where
  "track n g [] = Some g"
| "track n g (x # xs) = (case track_op n g x of None \<Rightarrow> None | Some g' \<Rightarrow> track n g' xs)"

section \<open>Chains\<close>

text \<open>\<open>isChain ns p xs\<close>: following the links of the node array \<open>ns\<close> from \<open>p\<close> visits
  exactly the slots \<open>xs\<close>, all of them in range, and then reaches the sentinel.\<close>

fun isChain :: "('s::len, 'h::len) Node list \<Rightarrow> 's word \<Rightarrow> 's word list \<Rightarrow> bool" where
  "isChain ns p [] = (p = - 1)"
| "isChain ns p (x # xs) =
     (p = x \<and> x \<noteq> - 1 \<and> unat x < length ns \<and> isChain ns (next (ns ! unat x)) xs)"

text \<open>The slots of the linked entries that belong to bucket \<open>b\<close>, most recent first.\<close>

definition chainOf :: "('s::len) word \<Rightarrow> (64 word \<times> 's word) list \<Rightarrow> nat \<Rightarrow> 's word list" where
  "chainOf bucketCount linked b =
     map snd (filter (\<lambda>e. unat ((low (fst e) :: 's word) mod bucketCount) = b) linked)"

text \<open>The sizes as the constructor leaves them.\<close>

definition validSizes :: "('s::len, 'h::len) container \<Rightarrow> bool" where
  "validSizes c =
     (length (m_nodeList c) = unat (m_nodeCount c) \<and>
      length (m_bucketList c) = unat (m_bucketCount c) \<and>
      unat (m_bucketCount c) = 2 * unat (m_nodeCount c) \<and>
      unat (m_nodeCount c) < unat (- 1 :: 's word) div 2)"

text \<open>The representation invariant: the arrays of \<open>c\<close> hold the entries \<open>g\<close>.\<close>

definition holds :: "bool \<Rightarrow> ('s::len, 'h::len) container \<Rightarrow> 's entries \<Rightarrow> bool" where
  "holds debug c g =
     (validSizes c \<and>
      distinct (map snd (fst g @ snd g)) \<and>
      (\<forall>e \<in> set (fst g @ snd g). unat (snd e) < unat (m_nodeCount c)) \<and>
      (\<forall>b < unat (m_bucketCount c).
         isChain (m_nodeList c) (first (m_bucketList c ! b)) (chainOf (m_bucketCount c) (fst g) b)) \<and>
      (\<forall>e \<in> set (fst g). hash (m_nodeList c ! unat (snd e)) = high (fst e)) \<and>
      (\<forall>e \<in> set (snd g).
         hash (m_nodeList c ! unat (snd e)) = high (fst e) \<and>
         next (m_nodeList c ! unat (snd e)) = low (fst e) mod m_bucketCount c) \<and>
      (debug \<longrightarrow>
         (\<forall>i < unat (m_nodeCount c).
            (\<forall>e \<in> set (fst g @ snd g). unat (snd e) \<noteq> i) \<longrightarrow> m_nodeList c ! i = poisonNode)))"

text \<open>The caller's loop over a search cursor that starts at the first match from \<open>p\<close> on:
  what \<^verbatim>\<open>find\<close> and \<^verbatim>\<open>findEmplaced\<close> followed by the loop amount to.\<close>

definition searchFrom ::
  "('s::len, 'h::len) container \<Rightarrow> 'h word \<Rightarrow> 's word \<Rightarrow> (error + 's word list) option" where
  "searchFrom c h p =
     (case findNext2 c h p of
        None \<Rightarrow> None
      | Some (Inl e) \<Rightarrow> Some (Inl e)
      | Some (Inr q) \<Rightarrow> searchAll c q)"

text \<open>The chains of the buckets from \<open>b\<close> on, one after the other.\<close>

definition restFrom :: "('s::len) word \<Rightarrow> (64 word \<times> 's word) list \<Rightarrow> nat \<Rightarrow> 's word list" where
  "restFrom bucketCount linked b = concat (map (chainOf bucketCount linked) [b ..< unat bucketCount])"

text \<open>Well-formed chains, stated on the arrays alone: every bucket has a finite list of
  slots that its links run through before they reach the sentinel; every head and every
  link on the way is the sentinel or a slot below \<^verbatim>\<open>m_nodeCount\<close>; and no slot
  occurs twice, in one chain or in two.\<close>

definition wellFormed :: "('s::len, 'h::len) container \<Rightarrow> bool" where
  "wellFormed c =
     (\<exists>chain :: nat \<Rightarrow> 's word list.
        (\<forall>b < unat (m_bucketCount c).
           isChain (m_nodeList c) (first (m_bucketList c ! b)) (chain b) \<and>
           (first (m_bucketList c ! b) = - 1 \<or>
            unat (first (m_bucketList c ! b)) < unat (m_nodeCount c)) \<and>
           (\<forall>x \<in> set (chain b).
              unat x < unat (m_nodeCount c) \<and>
              (next (m_nodeList c ! unat x) = - 1 \<or>
               unat (next (m_nodeList c ! unat x)) < unat (m_nodeCount c)))) \<and>
        distinct (concat (map chain [0 ..< unat (m_bucketCount c)])))"

text \<open>The same bound for the link field of every node of the array, on a chain or
  not.\<close>

definition linksOK :: "nat \<Rightarrow> ('s::len, 'h::len) Node list \<Rightarrow> bool" where
  "linksOK n ns = (\<forall>i < length ns. next (ns ! i) = - 1 \<or> unat (next (ns ! i)) < n)"

definition linksInRange :: "('s::len, 'h::len) container \<Rightarrow> bool" where
  "linksInRange c = linksOK (unat (m_nodeCount c)) (m_nodeList c)"

text \<open>Operation sequences in which every \<^verbatim>\<open>emplace\<close> is followed at once by the
  \<^verbatim>\<open>insertEmplaced\<close> of the same slot, so that the two-phase insertion is used as
  one step.\<close>

fun paired :: "'v op list \<Rightarrow> bool" where
  "paired [] = True"
| "paired (Emplace h val # InsertEmplaced val' # ops) = (val = val' \<and> paired ops)"
| "paired (Emplace h val # ops) = False"
| "paired (InsertEmplaced val # ops) = False"
| "paired (x # ops) = paired ops"

text \<open>The results that are C++ exceptions: the capacity error, thrown by
  \<^verbatim>\<open>computeBucketCount\<close>, and the failure of an allocation.\<close>

definition thrown :: "error + 'a \<Rightarrow> bool" where
  "thrown r = (r = Inl CapacityError \<or> r = Inl AllocationError)"

section \<open>Construction\<close>

lemma unat_max_word: "unat (- 1 :: 'a::len word) = 2 ^ LENGTH('a) - 1"
  by (simp add: unsigned_minus_1_eq_mask mask_eq_exp_minus_1)

lemma pow_len_le_64:
  assumes "LENGTH('s::len) \<le> 64"
  shows "(2::nat) ^ LENGTH('s) \<le> 2 ^ 64"
  by (rule power_increasing) (use assms in simp_all)

lemma unat_ucast_max:
  assumes "LENGTH('s::len) \<le> 64"
  shows "unat (ucast (- 1 :: 's word) :: 64 word) = unat (- 1 :: 's word)"
proof -
  have "unat (- 1 :: 's word) < 2 ^ LENGTH('s)"
    by (rule unsigned_less)
  with pow_len_le_64 [OF assms] have "unat (- 1 :: 's word) < 2 ^ 64"
    by linarith
  then have "take_bit LENGTH(64) (unat (- 1 :: 's word)) = unat (- 1 :: 's word)"
    by (intro take_bit_nat_eq_self) simp
  then show ?thesis
    by (simp only: unsigned_ucast_eq)
qed

lemma threshold_nat:
  assumes "LENGTH('s::len) \<le> 64"
  shows "(ucast (- 1 :: 's word) div (2 :: 64 word) \<le> e) = (unat (- 1 :: 's word) div 2 \<le> unat e)"
proof -
  have "unat (ucast (- 1 :: 's word) div (2 :: 64 word)) = unat (- 1 :: 's word) div 2"
    by (simp only: unat_div unat_ucast_max [OF assms]) simp
  then show ?thesis
    by (simp only: word_le_nat_alt)
qed

lemma small_entries:
  fixes e :: "64 word"
  assumes len: "LENGTH('s::len) \<le> 64"
    and small: "\<not> unat (- 1 :: 's word) div 2 \<le> unat e"
  shows "unat (ucast (2 * e) :: 's word) = 2 * unat e"
    and "unat (ucast e :: 's word) = unat e"
proof -
  have m: "unat (- 1 :: 's word) < 2 ^ LENGTH('s)"
    by (rule unsigned_less)
  from small have lt: "2 * unat e < unat (- 1 :: 's word)"
    by arith
  from lt m have b: "2 * unat e < 2 ^ LENGTH('s)"
    by linarith
  with pow_len_le_64 [OF len] have b64: "2 * unat e < 2 ^ 64"
    by linarith
  then have "unat (2 * e) = 2 * unat e"
    by (simp add: unat_word_ariths)
  with b show "unat (ucast (2 * e) :: 's word) = 2 * unat e"
    by (simp add: unsigned_ucast_eq take_bit_nat_eq_self)
  from b show "unat (ucast e :: 's word) = unat e"
    by (simp add: unsigned_ucast_eq take_bit_nat_eq_self)
qed

lemma computeBucketCount_eq:
  assumes "LENGTH('s::len) \<le> 64"
  shows "(computeBucketCount e :: error + 's word) =
           (if unat (- 1 :: 's word) div 2 \<le> unat e then Inl CapacityError
            else Inr (ucast (2 * e)))"
  by (simp only: computeBucketCount_def Let_def threshold_nat [OF assms])

lemma create_eq:
  assumes len: "LENGTH('s::len) \<le> 64"
  shows "(create debug heap e :: error + ('s, 'h::len) container) =
           (if unat (- 1 :: 's word) div 2 \<le> unat e then Inl CapacityError
            else if heap < 2 * unat e * (LENGTH('s) div 8)
                    \<or> heap < unat e * (2 * (max LENGTH('s) LENGTH('h) div 8))
            then Inl AllocationError
            else Inr \<lparr>m_bucketCount = ucast (2 * e),
                      m_nodeCount = ucast e,
                      m_bucketList = replicate (2 * unat e) poisonBucket,
                      m_nodeList = replicate (unat e)
                        (if debug then poisonNode else \<lparr>hash = 0, next = 0\<rparr>)\<rparr>)"
proof (cases "unat (- 1 :: 's word) div 2 \<le> unat e")
  case True
  then show ?thesis
    by (simp add: create_def computeBucketCount_eq [OF len])
next
  case False
  note sz = small_entries [OF len False]
  from False show ?thesis
    by (simp add: create_def computeBucketCount_eq [OF len] clear_hc_def sz Let_def)
qed

section \<open>Two-phase insertion against insert\<close>

lemma word_mod_not_max:
  fixes x n :: "'a::len word"
  assumes "n \<noteq> 0"
  shows "x mod n \<noteq> - 1"
proof
  assume eq: "x mod n = - 1"
  from assms have "0 < n"
    by (simp add: word_neq_0_conv)
  then have "x mod n < n"
    by (rule word_mod_less_divisor)
  with eq have "(- 1 :: 'a word) < n"
    by simp
  then show False
    by simp
qed

lemma slot_not_sentinel:
  fixes val :: "'s::len word"
  assumes "unat val < unat (n :: 's word)"
  shows "val \<noteq> - 1"
proof
  assume "val = - 1"
  with assms have "(- 1 :: 's word) < n"
    by (simp add: word_less_nat_alt)
  then show False
    by simp
qed

lemma validSizes_bucket_in_range:
  fixes c :: "('s::len, 'h::len) container"
  assumes "validSizes c" and "m_bucketCount c \<noteq> 0"
  shows "unat (x mod m_bucketCount c) < length (m_bucketList c)"
proof -
  from assms(2) have "0 < m_bucketCount c"
    by (simp add: word_neq_0_conv)
  then have "x mod m_bucketCount c < m_bucketCount c"
    by (rule word_mod_less_divisor)
  with assms(1) show ?thesis
    by (simp add: validSizes_def word_less_nat_alt)
qed

lemma validSizes_nonzero:
  fixes c :: "('s::len, 'h::len) container"
  assumes "validSizes c" and "unat (val :: 's word) < unat (m_nodeCount c)"
  shows "m_bucketCount c \<noteq> 0"
proof
  assume "m_bucketCount c = 0"
  with assms show False
    by (simp add: validSizes_def)
qed

section \<open>Chains and chain walks\<close>

lemma isChain_update_other:
  "\<forall>x \<in> set xs. unat x \<noteq> i \<Longrightarrow> isChain (ns[i := n]) p xs = isChain ns p xs"
  by (induction xs arbitrary: p) auto

text \<open>The arrays determine the chain of a bucket.\<close>

lemma isChain_unique: "isChain ns p xs \<Longrightarrow> isChain ns p ys \<Longrightarrow> xs = ys"
proof (induction xs arbitrary: p ys)
  case Nil
  then show ?case by (cases ys) auto
next
  case (Cons x xs)
  then show ?case by (cases ys) auto
qed

lemma isChain_in_range: "isChain ns p xs \<Longrightarrow> x \<in> set xs \<Longrightarrow> unat x < length ns \<and> x \<noteq> - 1"
  by (induction xs arbitrary: p) auto

lemma isChain_empty_iff: "isChain ns p xs \<Longrightarrow> xs = [] \<longleftrightarrow> p = - 1"
  by (cases xs) auto

lemma findNext2_chain:
  "isChain (m_nodeList c) p xs \<Longrightarrow>
   findNext2 c h p =
     Some (Inr (case List.find (\<lambda>x. hash (m_nodeList c ! unat x) = h) xs of
                  None \<Rightarrow> - 1 | Some x \<Rightarrow> x))"
proof (induction xs arbitrary: p)
  case Nil
  then show ?case
    by (subst findNext2.simps) simp
next
  case (Cons x xs)
  then show ?case
    by (subst findNext2.simps) simp
qed

lemma searchFrom_chain:
  "isChain (m_nodeList c) p xs \<Longrightarrow>
   searchFrom c h p = Some (Inr (filter (\<lambda>x. hash (m_nodeList c ! unat x) = h) xs))"
proof (induction xs arbitrary: p)
  case Nil
  then have "p = - 1" by simp
  then show ?case
    by (simp add: searchFrom_def findNext2.simps searchAll.simps)
next
  case (Cons x xs)
  then have px: "p = x" and xm: "x \<noteq> - 1" and xr: "unat x < length (m_nodeList c)"
    and rest: "isChain (m_nodeList c) (next (m_nodeList c ! unat x)) xs"
    by simp_all
  note ih = Cons.IH [OF rest]
  show ?case
  proof (cases "hash (m_nodeList c ! unat x) = h")
    case True
    have f: "findNext2 c h x = Some (Inr x)"
      using xm xr True by (subst findNext2.simps) simp
    have n: "findNext c x = findNext2 c h (next (m_nodeList c ! unat x))"
      using xr True by (simp add: findNext_def)
    from ih obtain q where q: "findNext2 c h (next (m_nodeList c ! unat x)) = Some (Inr q)"
      and s: "searchAll c q = Some (Inr (filter (\<lambda>x. hash (m_nodeList c ! unat x) = h) xs))"
      by (auto simp: searchFrom_def split: option.splits sum.splits)
    have "searchAll c x = Some (Inr (x # filter (\<lambda>x. hash (m_nodeList c ! unat x) = h) xs))"
      using xm n q s by (subst searchAll.simps) simp
    with f px True show ?thesis
      by (simp add: searchFrom_def)
  next
    case False
    have "findNext2 c h x = findNext2 c h (next (m_nodeList c ! unat x))"
      using xm xr False by (subst findNext2.simps) simp
    with ih px False show ?thesis
      by (simp add: searchFrom_def)
  qed
qed

section \<open>The operations keep the representation invariant\<close>

lemma holds_validSizes: "holds debug c g \<Longrightarrow> validSizes c"
  by (simp add: holds_def)

lemma holds_distinct: "holds debug c (linked, emplaced) \<Longrightarrow> distinct (map snd (linked @ emplaced))"
  by (simp add: holds_def)

lemma holds_slot_range:
  "holds debug c (linked, emplaced) \<Longrightarrow> e \<in> set linked \<union> set emplaced \<Longrightarrow>
   unat (snd e) < unat (m_nodeCount c)"
  by (simp add: holds_def)

lemma holds_chain:
  "holds debug c (linked, emplaced) \<Longrightarrow> b < unat (m_bucketCount c) \<Longrightarrow>
   isChain (m_nodeList c) (first (m_bucketList c ! b)) (chainOf (m_bucketCount c) linked b)"
  by (simp add: holds_def)

lemma holds_hash:
  "holds debug c (linked, emplaced) \<Longrightarrow> e \<in> set linked \<Longrightarrow>
   hash (m_nodeList c ! unat (snd e)) = high (fst e)"
  by (simp add: holds_def)

lemma holds_emplaced:
  "holds debug c (linked, emplaced) \<Longrightarrow> e \<in> set emplaced \<Longrightarrow>
   hash (m_nodeList c ! unat (snd e)) = high (fst e) \<and>
   next (m_nodeList c ! unat (snd e)) = low (fst e) mod m_bucketCount c"
  by (simp add: holds_def)

lemma holds_poison:
  "holds debug c (linked, emplaced) \<Longrightarrow> debug \<Longrightarrow> i < unat (m_nodeCount c) \<Longrightarrow>
   \<forall>e \<in> set linked \<union> set emplaced. unat (snd e) \<noteq> i \<Longrightarrow>
   m_nodeList c ! i = poisonNode"
  by (simp add: holds_def)

lemma chainOf_subset: "x \<in> set (chainOf n linked b) \<Longrightarrow> x \<in> snd ` set linked"
  by (auto simp: chainOf_def)

lemma chainOf_Cons:
  "chainOf n ((h, val) # linked) b =
     (if unat ((low h :: 's::len word) mod n) = b then val # chainOf n linked b else chainOf n linked b)"
  by (simp add: chainOf_def)

lemma bucket_index_less:
  fixes c :: "('s::len, 'h::len) container"
  assumes "m_bucketCount c \<noteq> 0"
  shows "unat (x mod m_bucketCount c) < unat (m_bucketCount c)"
proof -
  from assms have "0 < m_bucketCount c"
    by (simp add: word_neq_0_conv)
  then have "x mod m_bucketCount c < m_bucketCount c"
    by (rule word_mod_less_divisor)
  then show ?thesis
    by (simp add: word_less_nat_alt)
qed

lemma nth_update_entry:
  "\<forall>e \<in> S. unat (snd e) \<noteq> i \<Longrightarrow> e \<in> S \<Longrightarrow> ns[i := n] ! unat (snd e) = ns ! unat (snd e)"
  by auto

lemma holds_insert:
  fixes c :: "('s::len, 'h::len) container"
  assumes inv: "holds debug c (linked, emplaced)"
    and slot: "unat val < unat (m_nodeCount c)"
    and fresh: "val \<notin> snd ` set linked" "val \<notin> snd ` set emplaced"
  shows "\<exists>c'. insert_hc debug c h val = Inr c' \<and> holds debug c' ((h, val) # linked, emplaced)"
proof -
  let ?b = "low h mod m_bucketCount c"
  let ?ns = "(m_nodeList c)[unat val := \<lparr>hash = high h, next = first (m_bucketList c ! unat ?b)\<rparr>]"
  let ?bs = "(m_bucketList c)[unat ?b := \<lparr>first = val\<rparr>]"
  let ?c' = "c\<lparr>m_nodeList := ?ns, m_bucketList := ?bs\<rparr>"
  from inv have sizes: "validSizes c"
    by (rule holds_validSizes)
  from slot have nm: "val \<noteq> - 1"
    by (rule slot_not_sentinel)
  from sizes slot have nz: "m_bucketCount c \<noteq> 0"
    by (rule validSizes_nonzero)
  from sizes slot have inr: "unat val < length (m_nodeList c)"
    by (simp add: validSizes_def)
  note br = validSizes_bucket_in_range [OF sizes nz, of "low h"]
  note bl = bucket_index_less [OF nz, of "low h"]
  have fresh_nat: "\<forall>e \<in> set (linked @ emplaced). unat (snd e) \<noteq> unat val"
    using fresh by (auto simp: word_unat_eq_iff [symmetric] image_iff)
  have pois: "debug \<longrightarrow> m_nodeList c ! unat val = poisonNode"
    using holds_poison [OF inv _ slot] fresh_nat by auto
  have step: "insert_hc debug c h val = Inr ?c'"
    using nz inr br pois by (auto simp: insert_hc_def Let_def poisonNode_def)
  have v: "validSizes ?c'"
    using sizes by (simp add: validSizes_def)
  have d: "distinct (map snd (((h, val) # linked) @ emplaced))"
    using holds_distinct [OF inv] fresh by (auto simp: image_iff)
  have r: "\<forall>e \<in> set (((h, val) # linked) @ emplaced). unat (snd e) < unat (m_nodeCount ?c')"
    using holds_slot_range [OF inv] slot by auto
  have ch: "isChain ?ns (first (?bs ! b)) (chainOf (m_bucketCount c) ((h, val) # linked) b)"
    if b: "b < unat (m_bucketCount c)" for b
  proof -
    have old: "isChain (m_nodeList c) (first (m_bucketList c ! b)) (chainOf (m_bucketCount c) linked b)"
      using holds_chain [OF inv b] by simp
    have notin: "\<forall>x \<in> set (chainOf (m_bucketCount c) linked b'). unat x \<noteq> unat val" for b'
      using fresh(1) by (auto dest!: chainOf_subset simp: word_unat_eq_iff [symmetric] image_iff)
    show ?thesis
    proof (cases "unat ?b = b")
      case True
      from old True have "isChain ?ns (first (m_bucketList c ! unat ?b)) (chainOf (m_bucketCount c) linked b)"
        using notin by (simp add: isChain_update_other)
      with True nm inr br show ?thesis
        by (simp add: chainOf_Cons)
    next
      case False
      with old notin show ?thesis
        by (simp add: chainOf_Cons isChain_update_other)
    qed
  qed
  have hs: "\<forall>e \<in> set ((h, val) # linked). hash (?ns ! unat (snd e)) = high (fst e)"
  proof
    fix e
    assume e: "e \<in> set ((h, val) # linked)"
    show "hash (?ns ! unat (snd e)) = high (fst e)"
    proof (cases "e = (h, val)")
      case True
      with inr show ?thesis
        by simp
    next
      case False
      with e have el: "e \<in> set linked"
        by simp
      with fresh_nat have "unat (snd e) \<noteq> unat val"
        by simp
      with holds_hash [OF inv el] show ?thesis
        by simp
    qed
  qed
  have em: "\<forall>e \<in> set emplaced.
         hash (?ns ! unat (snd e)) = high (fst e) \<and>
         next (?ns ! unat (snd e)) = low (fst e) mod m_bucketCount c"
  proof
    fix e
    assume e: "e \<in> set emplaced"
    with fresh_nat have "?ns ! unat (snd e) = m_nodeList c ! unat (snd e)"
      by (intro nth_update_entry [where S = "set (linked @ emplaced)"]) simp_all
    with holds_emplaced [OF inv e]
    show "hash (?ns ! unat (snd e)) = high (fst e) \<and>
         next (?ns ! unat (snd e)) = low (fst e) mod m_bucketCount c"
      by simp
  qed
  have po: "debug \<longrightarrow>
         (\<forall>i < unat (m_nodeCount c).
            (\<forall>e \<in> set (((h, val) # linked) @ emplaced). unat (snd e) \<noteq> i) \<longrightarrow> ?ns ! i = poisonNode)"
    using inv by (auto simp: nth_list_update dest: holds_poison)
  have "holds debug ?c' ((h, val) # linked, emplaced)"
    unfolding holds_def using v d r ch hs em po by simp
  with step show ?thesis
    by blast
qed

lemma isChain_next_not:
  assumes "isChain ns p zs" and "val \<notin> set zs" and "val \<noteq> - 1"
  shows "p \<noteq> val"
  using assms by (cases zs) auto

lemma remove_loop_skip:
  "isChain ns p zs \<Longrightarrow> val \<notin> set zs \<Longrightarrow> val \<noteq> - 1 \<Longrightarrow> remove_loop ns val p = Some (Inr ns)"
proof (induction zs arbitrary: p)
  case Nil
  then show ?case
    by (subst remove_loop.simps) simp
next
  case (Cons z zs)
  then have pz: "p = z" and zm: "z \<noteq> - 1" and zr: "unat z < length ns"
    and rest: "isChain ns (next (ns ! unat z)) zs" and nin: "val \<notin> set zs"
    by simp_all
  from rest nin Cons.prems(3) have "next (ns ! unat z) \<noteq> val"
    by (rule isChain_next_not)
  with pz zm zr Cons.IH [OF rest nin Cons.prems(3)] show ?case
    by (subst remove_loop.simps) simp
qed

lemma remove_loop_relink:
  "isChain ns p (xs @ val # ys) \<Longrightarrow> xs \<noteq> [] \<Longrightarrow> distinct (xs @ val # ys) \<Longrightarrow>
   remove_loop ns val p =
     Some (Inr (ns[unat (last xs) := (ns ! unat (last xs))\<lparr>next := next (ns ! unat val)\<rparr>]))"
proof (induction xs arbitrary: p)
  case Nil
  then show ?case by simp
next
  case (Cons x xs)
  from Cons.prems(1) have px: "p = x" and xm: "x \<noteq> - 1" and xr: "unat x < length ns"
    and rest: "isChain ns (next (ns ! unat x)) (xs @ val # ys)"
    by simp_all
  show ?case
  proof (cases xs)
    case Nil
    with rest have nx: "next (ns ! unat x) = val" and vm: "val \<noteq> - 1"
      and vr: "unat val < length ns" and tl: "isChain ns (next (ns ! unat val)) ys"
      by simp_all
    let ?ns = "ns[unat x := (ns ! unat x)\<lparr>next := next (ns ! unat val)\<rparr>]"
    from Cons.prems(3) Nil have xys: "\<forall>y \<in> set ys. unat y \<noteq> unat x" and vys: "val \<notin> set ys"
      by (auto simp: word_unat_eq_iff [symmetric])
    from tl xys have "isChain ?ns (next (ns ! unat val)) ys"
      by (simp add: isChain_update_other)
    from this vys vm have "remove_loop ?ns val (next (ns ! unat val)) = Some (Inr ?ns)"
      by (rule remove_loop_skip)
    with px xm xr nx vr Nil show ?thesis
      by (subst remove_loop.simps) simp
  next
    case (Cons x' xs')
    with rest have "next (ns ! unat x) = x'"
      by simp
    moreover from Cons.prems(3) Cons have "x' \<noteq> val"
      by auto
    moreover from Cons.prems(3) have "distinct (xs @ val # ys)"
      by simp
    moreover from Cons have "xs \<noteq> []"
      by simp
    ultimately show ?thesis
      using px xm xr Cons.IH [OF rest] Cons
      by (subst remove_loop.simps) simp
  qed
qed

lemma isChain_relink:
  "isChain ns p (xs @ val # ys) \<Longrightarrow> xs \<noteq> [] \<Longrightarrow> distinct (xs @ val # ys) \<Longrightarrow>
   isChain (ns[unat (last xs) := (ns ! unat (last xs))\<lparr>next := next (ns ! unat val)\<rparr>]) p (xs @ ys)"
proof (induction xs arbitrary: p)
  case Nil
  then show ?case by simp
next
  case (Cons x xs)
  from Cons.prems(1) have px: "p = x" and xm: "x \<noteq> - 1" and xr: "unat x < length ns"
    and rest: "isChain ns (next (ns ! unat x)) (xs @ val # ys)"
    by simp_all
  show ?case
  proof (cases xs)
    case Nil
    with rest have tl: "isChain ns (next (ns ! unat val)) ys"
      by simp
    from Cons.prems(3) Nil have "\<forall>y \<in> set ys. unat y \<noteq> unat x"
      by (auto simp: word_unat_eq_iff [symmetric])
    with tl have "isChain (ns[unat x := (ns ! unat x)\<lparr>next := next (ns ! unat val)\<rparr>])
        (next (ns ! unat val)) ys"
      by (simp add: isChain_update_other)
    with px xm xr Nil show ?thesis
      by simp
  next
    case (Cons x' xs')
    from Cons.prems(3) Cons have "x \<noteq> last xs"
      by auto
    then have ne: "unat (last xs) \<noteq> unat x"
      by (simp add: word_unat_eq_iff [symmetric])
    from Cons.prems(3) have d: "distinct (xs @ val # ys)"
      by simp
    from Cons have nn: "xs \<noteq> []"
      by simp
    from Cons.IH [OF rest nn d] px xm xr ne nn show ?thesis
      by simp
  qed
qed

lemma chainOf_filter:
  "chainOf n (filter (\<lambda>e. snd e \<noteq> val) linked) b = filter (\<lambda>x. x \<noteq> val) (chainOf n linked b)"
  by (induction linked) (auto simp: chainOf_def)

lemma chainOf_distinct: "distinct (map snd linked) \<Longrightarrow> distinct (chainOf n linked b)"
  by (induction linked) (auto simp: chainOf_def)

lemma distinct_snd_unique:
  "distinct (map snd xs) \<Longrightarrow> (h, v) \<in> set xs \<Longrightarrow> (h', v) \<in> set xs \<Longrightarrow> h = h'"
proof (induction xs)
  case Nil
  then show ?case by simp
next
  case (Cons x xs)
  then show ?case
    by (cases x) (force simp: image_iff)
qed

lemma chainOf_set:
  "set (chainOf n linked b) = {snd e | e. e \<in> set linked \<and> unat ((low (fst e) :: 's word) mod n) = b}"
  for n :: "'s::len word"
  unfolding chainOf_def by force

lemma chainOf_member:
  fixes val :: "'s::len word"
  assumes d: "distinct (map snd linked)" and m: "(h, val) \<in> set linked"
  shows "val \<in> set (chainOf n linked b) \<longleftrightarrow> unat ((low h :: 's word) mod n) = b"
proof
  assume "val \<in> set (chainOf n linked b)"
  then obtain e where e: "e \<in> set linked" "snd e = val" "unat ((low (fst e) :: 's word) mod n) = b"
    unfolding chainOf_set by blast
  then have "(fst e, val) \<in> set linked"
    by (metis prod.collapse)
  with d m have "h = fst e"
    by (rule distinct_snd_unique)
  with e(3) show "unat ((low h :: 's word) mod n) = b"
    by simp
next
  assume "unat ((low h :: 's word) mod n) = b"
  with m show "val \<in> set (chainOf n linked b)"
    unfolding chainOf_set by force
qed

lemma holds_emplace:
  fixes c :: "('s::len, 'h::len) container"
  assumes inv: "holds debug c (linked, emplaced)"
    and slot: "unat val < unat (m_nodeCount c)"
    and fresh: "val \<notin> snd ` set linked" "val \<notin> snd ` set emplaced"
  shows "\<exists>c'. emplace debug c h val = Inr c' \<and> holds debug c' (linked, (h, val) # emplaced)"
proof -
  let ?ns = "(m_nodeList c)[unat val := \<lparr>hash = high h, next = low h mod m_bucketCount c\<rparr>]"
  let ?c' = "c\<lparr>m_nodeList := ?ns\<rparr>"
  from inv have sizes: "validSizes c"
    by (rule holds_validSizes)
  from slot have nm: "val \<noteq> - 1"
    by (rule slot_not_sentinel)
  from sizes slot have nz: "m_bucketCount c \<noteq> 0"
    by (rule validSizes_nonzero)
  from sizes slot have inr: "unat val < length (m_nodeList c)"
    by (simp add: validSizes_def)
  have fresh_nat: "\<forall>e \<in> set (linked @ emplaced). unat (snd e) \<noteq> unat val"
    using fresh by (auto simp: word_unat_eq_iff [symmetric] image_iff)
  have pois: "debug \<longrightarrow> m_nodeList c ! unat val = poisonNode"
    using holds_poison [OF inv _ slot] fresh_nat by auto
  have step: "emplace debug c h val = Inr ?c'"
    using nz nm inr pois by (auto simp: emplace_def poisonNode_def)
  have v: "validSizes ?c'"
    using sizes by (simp add: validSizes_def)
  have d: "distinct (map snd (linked @ (h, val) # emplaced))"
    using holds_distinct [OF inv] fresh by (auto simp: image_iff)
  have r: "\<forall>e \<in> set (linked @ (h, val) # emplaced). unat (snd e) < unat (m_nodeCount ?c')"
    using holds_slot_range [OF inv] slot by auto
  have ch: "isChain ?ns (first (m_bucketList c ! b)) (chainOf (m_bucketCount c) linked b)"
    if b: "b < unat (m_bucketCount c)" for b
  proof -
    have "\<forall>x \<in> set (chainOf (m_bucketCount c) linked b). unat x \<noteq> unat val"
      using fresh(1) by (auto dest!: chainOf_subset simp: word_unat_eq_iff [symmetric] image_iff)
    with holds_chain [OF inv b] show ?thesis
      by (simp add: isChain_update_other)
  qed
  have hs: "\<forall>e \<in> set linked. hash (?ns ! unat (snd e)) = high (fst e)"
  proof
    fix e
    assume e: "e \<in> set linked"
    with fresh_nat have "?ns ! unat (snd e) = m_nodeList c ! unat (snd e)"
      by (intro nth_update_entry [where S = "set (linked @ emplaced)"]) simp_all
    with holds_hash [OF inv e] show "hash (?ns ! unat (snd e)) = high (fst e)"
      by simp
  qed
  have em: "\<forall>e \<in> set ((h, val) # emplaced).
         hash (?ns ! unat (snd e)) = high (fst e) \<and>
         next (?ns ! unat (snd e)) = low (fst e) mod m_bucketCount c"
  proof
    fix e
    assume e: "e \<in> set ((h, val) # emplaced)"
    show "hash (?ns ! unat (snd e)) = high (fst e) \<and>
         next (?ns ! unat (snd e)) = low (fst e) mod m_bucketCount c"
    proof (cases "e = (h, val)")
      case True
      with inr show ?thesis
        by simp
    next
      case False
      with e have ee: "e \<in> set emplaced"
        by simp
      with fresh_nat have "?ns ! unat (snd e) = m_nodeList c ! unat (snd e)"
        by (intro nth_update_entry [where S = "set (linked @ emplaced)"]) simp_all
      with holds_emplaced [OF inv ee] show ?thesis
        by simp
    qed
  qed
  have po: "debug \<longrightarrow>
         (\<forall>i < unat (m_nodeCount c).
            (\<forall>e \<in> set (linked @ (h, val) # emplaced). unat (snd e) \<noteq> i) \<longrightarrow> ?ns ! i = poisonNode)"
    using inv by (auto simp: nth_list_update dest: holds_poison)
  have "holds debug ?c' (linked, (h, val) # emplaced)"
    unfolding holds_def using v d r ch hs em po by simp
  with step show ?thesis
    by blast
qed

lemma find_Some_member: "List.find P xs = Some e \<Longrightarrow> e \<in> set xs \<and> P e"
  by (induction xs) (auto split: if_splits)

lemma holds_insertEmplaced:
  fixes c :: "('s::len, 'h::len) container"
  assumes inv: "holds debug c (linked, emplaced)"
    and found: "List.find (\<lambda>e. snd e = val) emplaced = Some e"
  shows "\<exists>c'. insertEmplaced debug c val = Inr c' \<and>
           holds debug c' (e # linked, filter (\<lambda>e. snd e \<noteq> val) emplaced)"
proof -
  from found have ee: "e \<in> set emplaced" and ev: "snd e = val"
    using find_Some_member [OF found] by simp_all
  let ?b = "low (fst e) mod m_bucketCount c"
  let ?ns = "(m_nodeList c)[unat val :=
               (m_nodeList c ! unat val)\<lparr>next := first (m_bucketList c ! unat ?b)\<rparr>]"
  let ?bs = "(m_bucketList c)[unat ?b := \<lparr>first = val\<rparr>]"
  let ?c' = "c\<lparr>m_nodeList := ?ns, m_bucketList := ?bs\<rparr>"
  let ?em = "filter (\<lambda>e. snd e \<noteq> val) emplaced"
  from inv have sizes: "validSizes c"
    by (rule holds_validSizes)
  from holds_slot_range [OF inv, of e] ee ev have slot: "unat val < unat (m_nodeCount c)"
    by simp
  from slot have nm: "val \<noteq> - 1"
    by (rule slot_not_sentinel)
  from sizes slot have nz: "m_bucketCount c \<noteq> 0"
    by (rule validSizes_nonzero)
  from sizes slot have inr: "unat val < length (m_nodeList c)"
    by (simp add: validSizes_def)
  note br = validSizes_bucket_in_range [OF sizes nz, of "low (fst e)"]
  note bm = word_mod_not_max [OF nz, of "low (fst e)"]
  from holds_emplaced [OF inv ee] ev
  have stash: "next (m_nodeList c ! unat val) = ?b" and frag: "hash (m_nodeList c ! unat val) = high (fst e)"
    by simp_all
  have step: "insertEmplaced debug c val = Inr ?c'"
    using nm inr br bm stash by (simp add: insertEmplaced_def Let_def)
  from holds_distinct [OF inv] have dl: "distinct (map snd linked)" and de: "distinct (map snd emplaced)"
    and disj: "snd ` set linked \<inter> snd ` set emplaced = {}"
    by simp_all
  from disj ee ev have vl: "val \<notin> snd ` set linked"
    by (auto simp: image_iff)
  have fresh_nat: "\<forall>e' \<in> set (linked @ ?em). unat (snd e') \<noteq> unat val"
    using vl by (auto simp: word_unat_eq_iff [symmetric] image_iff)
  have v: "validSizes ?c'"
    using sizes by (simp add: validSizes_def)
  have d: "distinct (map snd ((e # linked) @ ?em))"
    using dl de disj vl ev by (auto simp: distinct_map_filter image_iff)
  have r: "\<forall>e' \<in> set ((e # linked) @ ?em). unat (snd e') < unat (m_nodeCount ?c')"
    using holds_slot_range [OF inv] ee by auto
  have ch: "isChain ?ns (first (?bs ! b)) (chainOf (m_bucketCount c) (e # linked) b)"
    if b: "b < unat (m_bucketCount c)" for b
  proof -
    have old: "isChain (m_nodeList c) (first (m_bucketList c ! b)) (chainOf (m_bucketCount c) linked b)"
      using holds_chain [OF inv b] by simp
    have notin: "\<forall>x \<in> set (chainOf (m_bucketCount c) linked b'). unat x \<noteq> unat val" for b'
      using vl by (auto dest!: chainOf_subset simp: word_unat_eq_iff [symmetric] image_iff)
    have co: "chainOf (m_bucketCount c) (e # linked) b =
        (if unat ?b = b then val # chainOf (m_bucketCount c) linked b
         else chainOf (m_bucketCount c) linked b)"
      using chainOf_Cons [of "m_bucketCount c" "fst e" val linked b] ev by (cases e) simp
    show ?thesis
    proof (cases "unat ?b = b")
      case True
      from old True have "isChain ?ns (first (m_bucketList c ! unat ?b)) (chainOf (m_bucketCount c) linked b)"
        using notin by (simp add: isChain_update_other)
      with True nm inr br show ?thesis
        by (simp add: co)
    next
      case False
      with old notin show ?thesis
        by (simp add: co isChain_update_other)
    qed
  qed
  have hs: "\<forall>e' \<in> set (e # linked). hash (?ns ! unat (snd e')) = high (fst e')"
  proof
    fix e'
    assume e': "e' \<in> set (e # linked)"
    show "hash (?ns ! unat (snd e')) = high (fst e')"
    proof (cases "e' = e")
      case True
      with inr ev frag show ?thesis
        by simp
    next
      case False
      with e' have el: "e' \<in> set linked"
        by simp
      with fresh_nat have "unat (snd e') \<noteq> unat val"
        by simp
      with holds_hash [OF inv el] show ?thesis
        by simp
    qed
  qed
  have em: "\<forall>e' \<in> set ?em.
         hash (?ns ! unat (snd e')) = high (fst e') \<and>
         next (?ns ! unat (snd e')) = low (fst e') mod m_bucketCount c"
  proof
    fix e'
    assume e': "e' \<in> set ?em"
    then have ee': "e' \<in> set emplaced"
      by simp
    from e' fresh_nat have "?ns ! unat (snd e') = m_nodeList c ! unat (snd e')"
      by (intro nth_update_entry [where S = "set (linked @ ?em)"]) simp_all
    with holds_emplaced [OF inv ee']
    show "hash (?ns ! unat (snd e')) = high (fst e') \<and>
         next (?ns ! unat (snd e')) = low (fst e') mod m_bucketCount c"
      by simp
  qed
  have po: "?ns ! i = poisonNode"
    if "debug" and i: "i < unat (m_nodeCount c)"
      and free: "\<forall>e' \<in> set ((e # linked) @ ?em). unat (snd e') \<noteq> i" for i
  proof -
    from free ev have iv: "i \<noteq> unat val"
      by auto
    have "\<forall>e' \<in> set linked \<union> set emplaced. unat (snd e') \<noteq> i"
    proof
      fix e'
      assume m: "e' \<in> set linked \<union> set emplaced"
      show "unat (snd e') \<noteq> i"
      proof (cases "snd e' = val")
        case True
        with iv show ?thesis by auto
      next
        case False
        with m free show ?thesis by auto
      qed
    qed
    from holds_poison [OF inv \<open>debug\<close> i this] iv show ?thesis
      by simp
  qed
  have "holds debug ?c' (e # linked, ?em)"
    unfolding holds_def using v d r ch hs em po by simp
  with step show ?thesis
    by blast
qed

lemma chainOf_other_bucket:
  fixes val :: "'s::len word"
  assumes d: "distinct (map snd linked)" and m: "(h, val) \<in> set linked"
    and b: "unat ((low h :: 's word) mod n) \<noteq> b"
  shows "val \<notin> set (chainOf n linked b)"
  using chainOf_member [OF d m, of n b] b by simp

lemma chainOf_disjoint:
  fixes x :: "'s::len word"
  assumes d: "distinct (map snd linked)"
    and x1: "x \<in> set (chainOf n linked b)" and x2: "x \<in> set (chainOf n linked b')"
  shows "b = b'"
proof -
  from x1 obtain e where e: "e \<in> set linked" "snd e = x" "unat ((low (fst e) :: 's word) mod n) = b"
    unfolding chainOf_set by blast
  then have "(fst e, x) \<in> set linked"
    by (metis prod.collapse)
  from chainOf_member [OF d this, of n b'] x2 e(3) show ?thesis
    by simp
qed

lemma filter_neq_notin: "val \<notin> set xs \<Longrightarrow> filter (\<lambda>x. x \<noteq> val) xs = xs"
  by (induction xs) auto

lemma isChain_suffix: "isChain ns p (xs @ val # ys) \<Longrightarrow> isChain ns (next (ns ! unat val)) ys"
  by (induction xs arbitrary: p) auto

lemma unat_neq_notin: "x \<notin> set xs \<Longrightarrow> \<forall>y \<in> set xs. unat y \<noteq> unat x"
  by (auto simp: word_unat_eq_iff [symmetric])

text \<open>What the two paths of \<^verbatim>\<open>remove\<close> have in common.\<close>

lemma holds_unlinked:
  fixes c :: "('s::len, 'h::len) container"
  assumes inv: "holds debug c (linked, emplaced)"
    and live: "(h, val) \<in> set linked"
    and len: "length ns1 = length (m_nodeList c)" "length bs1 = length (m_bucketList c)"
    and chains: "\<And>b. b < unat (m_bucketCount c) \<Longrightarrow>
        isChain ns1 (first (bs1 ! b)) (filter (\<lambda>x. x \<noteq> val) (chainOf (m_bucketCount c) linked b))"
    and frag: "\<And>e. e \<in> set linked \<Longrightarrow> snd e \<noteq> val \<Longrightarrow>
        hash (ns1 ! unat (snd e)) = hash (m_nodeList c ! unat (snd e))"
    and other: "\<And>i. i < unat (m_nodeCount c) \<Longrightarrow> \<forall>e \<in> set linked. unat (snd e) \<noteq> i \<Longrightarrow>
        ns1 ! i = m_nodeList c ! i"
    and pois: "debug \<Longrightarrow> ns1 ! unat val = poisonNode"
  shows "holds debug (c\<lparr>m_nodeList := ns1, m_bucketList := bs1\<rparr>)
           (filter (\<lambda>e. snd e \<noteq> val) linked, emplaced)"
proof -
  let ?li = "filter (\<lambda>e. snd e \<noteq> val) linked"
  let ?c' = "c\<lparr>m_nodeList := ns1, m_bucketList := bs1\<rparr>"
  from holds_validSizes [OF inv] len have v: "validSizes ?c'"
    by (simp add: validSizes_def)
  from holds_distinct [OF inv] have dl: "distinct (map snd linked)"
    and disj: "snd ` set linked \<inter> snd ` set emplaced = {}"
    and d0: "distinct (map snd (linked @ emplaced))"
    by simp_all
  have d: "distinct (map snd (?li @ emplaced))"
    using d0 by (auto simp: distinct_map_filter image_iff)
  have r: "\<forall>e \<in> set (?li @ emplaced). unat (snd e) < unat (m_nodeCount ?c')"
    using holds_slot_range [OF inv] by auto
  have ch: "\<forall>b < unat (m_bucketCount ?c').
      isChain (m_nodeList ?c') (first (m_bucketList ?c' ! b)) (chainOf (m_bucketCount ?c') ?li b)"
    using chains by (simp add: chainOf_filter)
  have hs: "\<forall>e \<in> set ?li. hash (m_nodeList ?c' ! unat (snd e)) = high (fst e)"
    using frag holds_hash [OF inv] by simp
  have em: "\<forall>e \<in> set emplaced.
         hash (m_nodeList ?c' ! unat (snd e)) = high (fst e) \<and>
         next (m_nodeList ?c' ! unat (snd e)) = low (fst e) mod m_bucketCount ?c'"
  proof
    fix e
    assume e: "e \<in> set emplaced"
    have "\<forall>e' \<in> set linked. unat (snd e') \<noteq> unat (snd e)"
      using disj e by (auto simp: word_unat_eq_iff [symmetric] image_iff)
    moreover from holds_slot_range [OF inv, of e] e have "unat (snd e) < unat (m_nodeCount c)"
      by simp
    ultimately have "ns1 ! unat (snd e) = m_nodeList c ! unat (snd e)"
      by (intro other)
    with holds_emplaced [OF inv e]
    show "hash (m_nodeList ?c' ! unat (snd e)) = high (fst e) \<and>
         next (m_nodeList ?c' ! unat (snd e)) = low (fst e) mod m_bucketCount ?c'"
      by simp
  qed
  have po: "m_nodeList ?c' ! i = poisonNode"
    if dbg: "debug" and i: "i < unat (m_nodeCount ?c')"
      and free: "\<forall>e \<in> set (?li @ emplaced). unat (snd e) \<noteq> i" for i
  proof (cases "i = unat val")
    case True
    with pois [OF dbg] show ?thesis
      by simp
  next
    case False
    have all: "\<forall>e \<in> set linked \<union> set emplaced. unat (snd e) \<noteq> i"
    proof
      fix e
      assume m: "e \<in> set linked \<union> set emplaced"
      show "unat (snd e) \<noteq> i"
      proof (cases "snd e = val")
        case True
        with False show ?thesis by auto
      next
        case False
        with m free show ?thesis by auto
      qed
    qed
    then have "\<forall>e \<in> set linked. unat (snd e) \<noteq> i"
      by simp
    with i have "ns1 ! i = m_nodeList c ! i"
      by (intro other) simp_all
    with holds_poison [OF inv dbg _ all] i show ?thesis
      by simp
  qed
  show ?thesis
    unfolding holds_def using v d r ch hs em po by simp
qed

lemma holds_remove:
  fixes c :: "('s::len, 'h::len) container"
  assumes inv: "holds debug c (linked, emplaced)"
    and live: "(h, val) \<in> set linked"
  shows "\<exists>c'. remove_hc debug c h val = Some (Inr c') \<and>
           holds debug c' (filter (\<lambda>e. snd e \<noteq> val) linked, emplaced)"
proof -
  let ?n = "m_bucketCount c"
  let ?b = "low h mod ?n"
  let ?ns = "m_nodeList c"
  let ?bs = "m_bucketList c"
  from inv have sizes: "validSizes c"
    by (rule holds_validSizes)
  from holds_slot_range [OF inv, of "(h, val)"] live have slot: "unat val < unat (m_nodeCount c)"
    by simp
  from slot have nm: "val \<noteq> - 1"
    by (rule slot_not_sentinel)
  from sizes slot have nz: "?n \<noteq> 0"
    by (rule validSizes_nonzero)
  from sizes slot have inr: "unat val < length ?ns"
    by (simp add: validSizes_def)
  from sizes have lenn: "length ?ns = unat (m_nodeCount c)"
    by (simp add: validSizes_def)
  note br = validSizes_bucket_in_range [OF sizes nz, of "low h"]
  note bl = bucket_index_less [OF nz, of "low h"]
  from holds_hash [OF inv live] have frag: "hash (?ns ! unat val) = high h"
    by simp
  from holds_distinct [OF inv] have dl: "distinct (map snd linked)"
    by simp
  have vin: "val \<in> set (chainOf ?n linked (unat ?b))"
    using chainOf_member [OF dl live, of ?n "unat ?b"] by simp
  then obtain xs ys where split: "chainOf ?n linked (unat ?b) = xs @ val # ys"
    by (auto simp: in_set_conv_decomp)
  have dch: "distinct (xs @ val # ys)"
    using chainOf_distinct [OF dl, of ?n "unat ?b"] split by simp
  have chb: "isChain ?ns (first (?bs ! unat ?b)) (xs @ val # ys)"
    using holds_chain [OF inv bl] split by simp
  have tail: "isChain ?ns (next (?ns ! unat val)) ys"
    using chb by (rule isChain_suffix)
  have vother: "val \<notin> set (chainOf ?n linked b)" if "b \<noteq> unat ?b" for b
    using chainOf_other_bucket [OF dl live, of ?n b] that by auto
  have slots: "x \<in> set (chainOf ?n linked b) \<Longrightarrow> \<exists>e \<in> set linked. snd e = x" for x b
    by (auto dest: chainOf_subset)
  show ?thesis
  proof (cases xs)
    case Nil
    let ?nsp = "if debug then ?ns[unat val := poisonNode] else ?ns"
    let ?bsr = "?bs[unat ?b := \<lparr>first = next (?ns ! unat val)\<rparr>]"
    from chb Nil have hd: "first (?bs ! unat ?b) = val"
      by simp
    have step: "remove_hc debug c h val = Some (Inr (c\<lparr>m_nodeList := ?nsp, m_bucketList := ?bsr\<rparr>))"
      using inr frag nz br hd by (simp add: remove_hc_def Let_def)
    have chains: "isChain ?nsp (first (?bsr ! b)) (filter (\<lambda>x. x \<noteq> val) (chainOf ?n linked b))"
      if b: "b < unat ?n" for b
    proof (cases "b = unat ?b")
      case True
      from dch Nil have "val \<notin> set ys"
        by simp
      then have "filter (\<lambda>x. x \<noteq> val) (chainOf ?n linked b) = ys"
        using split Nil True by (simp add: filter_neq_notin)
      moreover have "isChain ?nsp (next (?ns ! unat val)) ys"
        using tail unat_neq_notin [OF \<open>val \<notin> set ys\<close>] by (simp add: isChain_update_other)
      ultimately show ?thesis
        using True br by simp
    next
      case False
      from vother [OF False] have "filter (\<lambda>x. x \<noteq> val) (chainOf ?n linked b) = chainOf ?n linked b"
        by (rule filter_neq_notin)
      moreover have "isChain ?nsp (first (?bs ! b)) (chainOf ?n linked b)"
        using holds_chain [OF inv b] unat_neq_notin [OF vother [OF False]]
        by (simp add: isChain_update_other)
      ultimately show ?thesis
        using False by simp
    qed
    have "holds debug (c\<lparr>m_nodeList := ?nsp, m_bucketList := ?bsr\<rparr>)
        (filter (\<lambda>e. snd e \<noteq> val) linked, emplaced)"
    proof (rule holds_unlinked [OF inv live _ _ chains])
      show "length ?nsp = length ?ns" by simp
      show "length ?bsr = length ?bs" by simp
      show "hash (?nsp ! unat (snd e)) = hash (?ns ! unat (snd e))"
        if "e \<in> set linked" "snd e \<noteq> val" for e
        using that by (simp add: word_unat_eq_iff [symmetric])
      show "?nsp ! i = ?ns ! i"
        if "i < unat (m_nodeCount c)" "\<forall>e \<in> set linked. unat (snd e) \<noteq> i" for i
        using that live by (auto simp: nth_list_update)
      show "?nsp ! unat val = poisonNode" if debug
        using that inr by simp
    qed
    with step show ?thesis
      by blast
  next
    case (Cons x xs')
    then have xne: "xs \<noteq> []"
      by simp
    let ?l = "unat (last xs)"
    let ?nsr = "?ns[?l := (?ns ! ?l)\<lparr>next := next (?ns ! unat val)\<rparr>]"
    let ?nsp = "if debug then ?nsr[unat val := poisonNode] else ?nsr"
    from chb Cons have hd: "first (?bs ! unat ?b) = x"
      by simp
    from dch Cons have xv: "x \<noteq> val"
      by auto
    from dch xne have lv: "last xs \<noteq> val"
      by (metis distinct_append in_set_conv_decomp last_in_set insert_iff list.set(2) disjoint_iff)
    have loop: "remove_loop ?ns val (first (?bs ! unat ?b)) = Some (Inr ?nsr)"
      using chb xne dch by (rule remove_loop_relink)
    have step: "remove_hc debug c h val = Some (Inr (c\<lparr>m_nodeList := ?nsp\<rparr>))"
      using inr frag nz br hd xv loop by (simp add: remove_hc_def Let_def)
    have lin: "last xs \<in> set (chainOf ?n linked (unat ?b))"
      using split xne by simp
    have vxy: "val \<notin> set (xs @ ys)"
      using dch by auto
    have lr: "?l < length ?ns"
      using isChain_in_range [OF chb, of "last xs"] xne by simp
    have chains: "isChain ?nsp (first (?bs ! b)) (filter (\<lambda>x. x \<noteq> val) (chainOf ?n linked b))"
      if b: "b < unat ?n" for b
    proof (cases "b = unat ?b")
      case True
      have "filter (\<lambda>x. x \<noteq> val) (chainOf ?n linked b) = xs @ ys"
        using split True vxy by (simp add: filter_neq_notin)
      moreover have "isChain ?nsr (first (?bs ! unat ?b)) (xs @ ys)"
        using chb xne dch by (rule isChain_relink)
      then have "isChain ?nsp (first (?bs ! unat ?b)) (xs @ ys)"
        using unat_neq_notin [OF vxy] by (simp add: isChain_update_other)
      ultimately show ?thesis
        using True by simp
    next
      case False
      from vother [OF False] have "filter (\<lambda>x. x \<noteq> val) (chainOf ?n linked b) = chainOf ?n linked b"
        by (rule filter_neq_notin)
      moreover have "last xs \<notin> set (chainOf ?n linked b)"
        using chainOf_disjoint [OF dl lin, of b] False by auto
      then have "isChain ?nsp (first (?bs ! b)) (chainOf ?n linked b)"
        using holds_chain [OF inv b] unat_neq_notin [OF vother [OF False]]
          unat_neq_notin [of "last xs" "chainOf ?n linked b"]
        by (simp add: isChain_update_other)
      ultimately show ?thesis
        by simp
    qed
    have "holds debug (c\<lparr>m_nodeList := ?nsp, m_bucketList := ?bs\<rparr>)
        (filter (\<lambda>e. snd e \<noteq> val) linked, emplaced)"
    proof (rule holds_unlinked [OF inv live _ _ chains])
      show "length ?nsp = length ?ns" by simp
      show "length ?bs = length ?bs" by simp
      show "hash (?nsp ! unat (snd e)) = hash (?ns ! unat (snd e))"
        if "e \<in> set linked" "snd e \<noteq> val" for e
        using that lr by (simp add: word_unat_eq_iff [symmetric] nth_list_update)
      show "?nsp ! i = ?ns ! i"
        if "i < unat (m_nodeCount c)" "\<forall>e \<in> set linked. unat (snd e) \<noteq> i" for i
      proof -
        from that(2) live have "i \<noteq> unat val"
          by auto
        moreover from slots [OF lin] that(2) have "i \<noteq> ?l"
          by auto
        ultimately show ?thesis
          by simp
      qed
      show "?nsp ! unat val = poisonNode" if debug
        using that inr by simp
    qed
    then have "holds debug (c\<lparr>m_nodeList := ?nsp\<rparr>) (filter (\<lambda>e. snd e \<noteq> val) linked, emplaced)"
      by simp
    with step show ?thesis
      by blast
  qed
qed

lemma chainOf_Nil: "chainOf n [] b = []"
  by (simp add: chainOf_def)

lemma clear_hc_result:
  fixes c :: "('s::len, 'h::len) container"
  assumes "validSizes c"
  shows "clear_hc debug c =
           Inr (c\<lparr>m_nodeList := (if debug then replicate (unat (m_nodeCount c)) poisonNode
                                   else m_nodeList c),
                  m_bucketList := replicate (unat (m_bucketCount c)) poisonBucket\<rparr>)"
  using assms by (simp add: clear_hc_def validSizes_def)

lemma holds_empty:
  fixes c :: "('s::len, 'h::len) container"
  assumes sizes: "validSizes c"
    and heads: "\<forall>b < unat (m_bucketCount c). first (m_bucketList c ! b) = - 1"
    and pois: "debug \<longrightarrow> (\<forall>i < unat (m_nodeCount c). m_nodeList c ! i = poisonNode)"
  shows "holds debug c ([], [])"
  unfolding holds_def using assms by (simp add: chainOf_Nil)

lemma holds_clear:
  fixes c :: "('s::len, 'h::len) container"
  assumes inv: "holds debug c g"
  shows "\<exists>c'. clear_hc debug c = Inr c' \<and> holds debug c' ([], []) \<and>
           m_bucketList c' = replicate (unat (m_bucketCount c)) poisonBucket \<and>
           m_bucketCount c' = m_bucketCount c \<and> m_nodeCount c' = m_nodeCount c"
proof -
  from inv have sizes: "validSizes c"
    by (rule holds_validSizes)
  let ?c' = "c\<lparr>m_nodeList := (if debug then replicate (unat (m_nodeCount c)) poisonNode
                                   else m_nodeList c),
                  m_bucketList := replicate (unat (m_bucketCount c)) poisonBucket\<rparr>"
  have "holds debug ?c' ([], [])"
    using sizes by (intro holds_empty) (simp_all add: validSizes_def poisonBucket_def)
  with clear_hc_result [OF sizes, of debug] show ?thesis
    by simp
qed

lemma holds_create:
  fixes e :: "64 word"
  assumes len: "LENGTH('s::len) \<le> 64"
    and small: "unat e < unat (- 1 :: 's word) div 2"
    and room: "(create debug heap e :: error + ('s, 'h::len) container) \<noteq> Inl AllocationError"
  shows "\<exists>c :: ('s, 'h::len) container. create debug heap e = Inr c \<and> holds debug c ([], []) \<and>
           unat (m_nodeCount c) = unat e \<and> unat (m_bucketCount c) = 2 * unat e"
proof -
  let ?c = "\<lparr>m_bucketCount = ucast (2 * e) :: 's word,
             m_nodeCount = ucast e,
             m_bucketList = replicate (2 * unat e) poisonBucket,
             m_nodeList = replicate (unat e)
               (if debug then poisonNode else \<lparr>hash = 0 :: 'h word, next = 0\<rparr>)\<rparr>"
  from small have ns: "\<not> unat (- 1 :: 's word) div 2 \<le> unat e"
    by simp
  note sz = small_entries [OF len ns]
  have cr: "create debug heap e = Inr ?c"
    using create_eq [OF len, of debug heap e, where 'h = 'h] ns room
    by (simp split: if_splits)
  have "validSizes ?c"
    using sz small by (simp add: validSizes_def)
  then have "holds debug ?c ([], [])"
    using sz by (intro holds_empty) (simp_all add: poisonBucket_def)
  with cr sz show ?thesis
    by simp
qed

lemma holds_step:
  fixes c :: "('s::len, 'h::len) container"
  assumes inv: "holds debug c g"
    and tr: "track_op (unat (m_nodeCount c)) g x = Some g'"
  shows "\<exists>c'. apply_op debug c x = Some (Inr c') \<and> holds debug c' g' \<and>
           m_nodeCount c' = m_nodeCount c \<and> m_bucketCount c' = m_bucketCount c"
proof (cases g)
  case (Pair linked emplaced)
  note g = this
  show ?thesis
  proof (cases x)
    case (Insert h val)
    with tr g have pre: "unat val < unat (m_nodeCount c)" "val \<notin> snd ` set linked"
      "val \<notin> snd ` set emplaced" and g': "g' = ((h, val) # linked, emplaced)"
      by (auto split: if_splits)
    from holds_insert [OF inv [unfolded g] pre, of h] obtain c'
      where c': "insert_hc debug c h val = Inr c'" "holds debug c' ((h, val) # linked, emplaced)"
      by blast
    from c'(1) have "m_nodeCount c' = m_nodeCount c \<and> m_bucketCount c' = m_bucketCount c"
      by (auto simp: insert_hc_def Let_def split: if_splits)
    with c' g' Insert show ?thesis
      by simp
  next
    case (Emplace h val)
    with tr g have pre: "unat val < unat (m_nodeCount c)" "val \<notin> snd ` set linked"
      "val \<notin> snd ` set emplaced" and g': "g' = (linked, (h, val) # emplaced)"
      by (auto split: if_splits)
    from holds_emplace [OF inv [unfolded g] pre, of h] obtain c'
      where c': "emplace debug c h val = Inr c'" "holds debug c' (linked, (h, val) # emplaced)"
      by blast
    from c'(1) have "m_nodeCount c' = m_nodeCount c \<and> m_bucketCount c' = m_bucketCount c"
      by (auto simp: emplace_def split: if_splits)
    with c' g' Emplace show ?thesis
      by simp
  next
    case (InsertEmplaced val)
    with tr g obtain e where e: "List.find (\<lambda>e. snd e = val) emplaced = Some e"
      and g': "g' = (e # linked, filter (\<lambda>e. snd e \<noteq> val) emplaced)"
      by (auto split: option.splits)
    from holds_insertEmplaced [OF inv [unfolded g] e] obtain c'
      where c': "insertEmplaced debug c val = Inr c'"
        "holds debug c' (e # linked, filter (\<lambda>e. snd e \<noteq> val) emplaced)"
      by blast
    from c'(1) have "m_nodeCount c' = m_nodeCount c \<and> m_bucketCount c' = m_bucketCount c"
      by (auto simp: insertEmplaced_def Let_def split: if_splits)
    with c' g' InsertEmplaced show ?thesis
      by simp
  next
    case (Remove h val)
    with tr g have live: "(h, val) \<in> set linked"
      and g': "g' = (filter (\<lambda>e. snd e \<noteq> val) linked, emplaced)"
      by (auto split: if_splits)
    from holds_remove [OF inv [unfolded g] live] obtain c'
      where c': "remove_hc debug c h val = Some (Inr c')"
        "holds debug c' (filter (\<lambda>e. snd e \<noteq> val) linked, emplaced)"
      by blast
    from c'(1) have "m_nodeCount c' = m_nodeCount c \<and> m_bucketCount c' = m_bucketCount c"
      by (auto simp: remove_hc_def Let_def split: if_splits option.splits sum.splits)
    with c' g' Remove show ?thesis
      by simp
  next
    case Clear
    with tr g have g': "g' = ([], [])"
      by simp
    from holds_clear [OF inv] Clear g' show ?thesis
      by auto
  qed
qed

lemma holds_run:
  fixes c :: "('s::len, 'h::len) container"
  assumes "holds debug c g" and "track (unat (m_nodeCount c)) g ops = Some g'"
  shows "\<exists>c'. run debug c ops = Some (Inr c') \<and> holds debug c' g' \<and>
           m_nodeCount c' = m_nodeCount c \<and> m_bucketCount c' = m_bucketCount c"
  using assms
proof (induction ops arbitrary: c g)
  case Nil
  then show ?case by simp
next
  case (Cons x xs)
  from Cons.prems(2) obtain g1 where g1: "track_op (unat (m_nodeCount c)) g x = Some g1"
    and rest: "track (unat (m_nodeCount c)) g1 xs = Some g'"
    by (auto split: option.splits)
  from holds_step [OF Cons.prems(1) g1] obtain c1
    where c1: "apply_op debug c x = Some (Inr c1)" "holds debug c1 g1"
      "m_nodeCount c1 = m_nodeCount c" "m_bucketCount c1 = m_bucketCount c"
    by blast
  from Cons.IH [OF c1(2)] rest c1(3) obtain c'
    where "run debug c1 xs = Some (Inr c')" "holds debug c' g'"
      "m_nodeCount c' = m_nodeCount c1" "m_bucketCount c' = m_bucketCount c1"
    by auto
  with c1 show ?case
    by simp
qed

lemma holds_build:
  fixes e :: "64 word"
  assumes len: "LENGTH('s::len) \<le> 64"
    and small: "unat e < unat (- 1 :: 's word) div 2"
    and room: "(create debug heap e :: error + ('s, 'h::len) container) \<noteq> Inl AllocationError"
    and tr: "track (unat e) ([], []) ops = Some g"
  shows "\<exists>c :: ('s, 'h::len) container. build debug heap e ops = Some (Inr c) \<and> holds debug c g \<and>
           unat (m_nodeCount c) = unat e \<and> unat (m_bucketCount c) = 2 * unat e"
proof -
  from holds_create [OF len small room] obtain c0 :: "('s, 'h) container"
    where c0: "create debug heap e = Inr c0" "holds debug c0 ([], [])"
      "unat (m_nodeCount c0) = unat e" "unat (m_bucketCount c0) = 2 * unat e"
    by blast
  from holds_run [OF c0(2), of ops g] tr c0(3) obtain c
    where "run debug c0 ops = Some (Inr c)" "holds debug c g"
      "m_nodeCount c = m_nodeCount c0" "m_bucketCount c = m_bucketCount c0"
    by auto
  with c0 show ?thesis
    by (simp add: build_def)
qed

section \<open>Full enumeration\<close>

lemma unat_succ_below:
  fixes bk n :: "'a::len word"
  assumes "unat bk < unat n"
  shows "unat (bk + 1) = unat bk + 1"
proof -
  have m: "unat n < 2 ^ LENGTH('a)"
    by (rule unsigned_less)
  from assms m have "unat bk + 1 < 2 ^ LENGTH('a)"
    by linarith
  then have "unat bk + unat (1 :: 'a word) < 2 ^ LENGTH('a)"
    by (simp only: unat_1)
  then have "unat (bk + 1) = unat bk + unat (1 :: 'a word)"
    by (simp only: unat_add_lem)
  then show ?thesis
    by (simp only: unat_1)
qed

lemma succ_eq_iff:
  fixes bk n :: "'a::len word"
  assumes "unat bk < unat n"
  shows "bk + 1 = n \<longleftrightarrow> unat bk + 1 = unat n"
  using unat_succ_below [OF assms] by (simp add: word_unat_eq_iff)

lemma restFrom_end: "unat n \<le> b \<Longrightarrow> restFrom n linked b = []"
  by (simp add: restFrom_def)

lemma restFrom_step: "b < unat n \<Longrightarrow> restFrom n linked b = chainOf n linked b @ restFrom n linked (b + 1)"
  by (simp add: restFrom_def upt_conv_Cons)

lemma isChain_head_first: "isChain ns p xs \<Longrightarrow> xs \<noteq> [] \<Longrightarrow> hd xs = p \<and> p \<noteq> - 1"
  by (cases xs) auto

lemma nextElement_loop_spec:
  fixes c :: "('s::len, 'h::len) container"
  assumes inv: "holds debug c (linked, emplaced)"
  shows "unat bk < unat (m_bucketCount c) \<Longrightarrow>
    \<exists>it. nextElement_loop c bk = Inr it \<and>
      (if restFrom (m_bucketCount c) linked (unat bk + 1) = [] then m_position it = - 1
       else \<exists>b'. unat bk < b' \<and> b' < unat (m_bucketCount c) \<and> unat (m_bucket it) = b' \<and>
              chainOf (m_bucketCount c) linked b' \<noteq> [] \<and>
              m_position it = hd (chainOf (m_bucketCount c) linked b') \<and>
              restFrom (m_bucketCount c) linked (unat bk + 1) =
                chainOf (m_bucketCount c) linked b' @ restFrom (m_bucketCount c) linked (b' + 1))"
proof (induction "unat (m_bucketCount c) - unat bk" arbitrary: bk rule: less_induct)
  case less
  let ?n = "m_bucketCount c"
  note lt = less.prems
  note su = unat_succ_below [OF lt]
  note eq = succ_eq_iff [OF lt]
  from holds_validSizes [OF inv] have len: "length (m_bucketList c) = unat ?n"
    by (simp add: validSizes_def)
  show ?case
  proof (cases "unat bk + 1 = unat ?n")
    case True
    then have "nextElement_loop c bk = Inr \<lparr>m_position = - 1, m_bucket = bk + 1\<rparr>"
      using eq by (subst nextElement_loop.simps) simp
    moreover from True have "restFrom ?n linked (unat bk + 1) = []"
      by (simp add: restFrom_end)
    ultimately show ?thesis
      by simp
  next
    case False
    with lt have lt': "unat bk + 1 < unat ?n"
      by simp
    then have lt'': "unat (bk + 1) < unat ?n"
      using su by simp
    let ?hd = "first (m_bucketList c ! (unat bk + 1))"
    let ?ch = "chainOf ?n linked (unat bk + 1)"
    have ch: "isChain (m_nodeList c) ?hd ?ch"
      using holds_chain [OF inv lt'] .
    note rs = restFrom_step [OF lt', of linked]
    show ?thesis
    proof (cases "?hd = - 1")
      case True
      with ch have emp: "?ch = []"
        by (simp add: isChain_empty_iff)
      have "nextElement_loop c bk = nextElement_loop c (bk + 1)"
        using False eq su lt' len True by (subst nextElement_loop.simps) simp
      moreover have "unat ?n - unat (bk + 1) < unat ?n - unat bk"
        using su lt by simp
      from less.hyps [OF this lt''] obtain it where it: "nextElement_loop c (bk + 1) = Inr it"
        "(if restFrom ?n linked (unat (bk + 1) + 1) = [] then m_position it = - 1
          else \<exists>b'. unat (bk + 1) < b' \<and> b' < unat ?n \<and> unat (m_bucket it) = b' \<and>
              chainOf ?n linked b' \<noteq> [] \<and> m_position it = hd (chainOf ?n linked b') \<and>
              restFrom ?n linked (unat (bk + 1) + 1) =
                chainOf ?n linked b' @ restFrom ?n linked (b' + 1))"
        by blast
      ultimately show ?thesis
        using rs emp su by (auto split: if_splits)
    next
      case False
      with ch have ne: "?ch \<noteq> []"
        by (simp add: isChain_empty_iff)
      with ch have "hd ?ch = ?hd"
        by (simp add: isChain_head_first)
      moreover have "nextElement_loop c bk = Inr \<lparr>m_position = ?hd, m_bucket = bk + 1\<rparr>"
        using \<open>unat bk + 1 \<noteq> unat ?n\<close> eq su lt' len False by (subst nextElement_loop.simps) simp
      ultimately show ?thesis
        using rs ne su lt' by auto
    qed
  qed
qed

lemma begin_loop_spec:
  fixes c :: "('s::len, 'h::len) container"
  assumes inv: "holds debug c (linked, emplaced)"
  shows "unat bk < unat (m_bucketCount c) \<Longrightarrow>
    \<exists>it. begin_loop c bk = Inr it \<and>
      (if restFrom (m_bucketCount c) linked (unat bk) = [] then m_position it = - 1
       else \<exists>b'. b' < unat (m_bucketCount c) \<and> unat (m_bucket it) = b' \<and>
              chainOf (m_bucketCount c) linked b' \<noteq> [] \<and>
              m_position it = hd (chainOf (m_bucketCount c) linked b') \<and>
              restFrom (m_bucketCount c) linked (unat bk) =
                chainOf (m_bucketCount c) linked b' @ restFrom (m_bucketCount c) linked (b' + 1))"
proof (induction "unat (m_bucketCount c) - unat bk" arbitrary: bk rule: less_induct)
  case less
  let ?n = "m_bucketCount c"
  note lt = less.prems
  note su = unat_succ_below [OF lt]
  note eq = succ_eq_iff [OF lt]
  from holds_validSizes [OF inv] have len: "length (m_bucketList c) = unat ?n"
    by (simp add: validSizes_def)
  let ?hd = "first (m_bucketList c ! unat bk)"
  let ?ch = "chainOf ?n linked (unat bk)"
  have ch: "isChain (m_nodeList c) ?hd ?ch"
    using holds_chain [OF inv lt] .
  note rs = restFrom_step [OF lt, of linked]
  show ?case
  proof (cases "?hd = - 1")
    case False
    with ch have ne: "?ch \<noteq> []"
      by (simp add: isChain_empty_iff)
    with ch have "hd ?ch = ?hd"
      by (simp add: isChain_head_first)
    moreover have "begin_loop c bk = Inr \<lparr>m_position = ?hd, m_bucket = bk\<rparr>"
      using lt len False by (subst begin_loop.simps) simp
    ultimately show ?thesis
      using rs ne lt by auto
  next
    case True
    with ch have emp: "?ch = []"
      by (simp add: isChain_empty_iff)
    show ?thesis
    proof (cases "unat bk + 1 = unat ?n")
      case True
      then have "begin_loop c bk = Inr end_hc"
        using eq lt len \<open>?hd = - 1\<close> by (subst begin_loop.simps) simp
      moreover from True have "restFrom ?n linked (unat bk + 1) = []"
        by (simp add: restFrom_end)
      ultimately show ?thesis
        using rs emp by (simp add: end_hc_def)
    next
      case False
      with lt su have lt'': "unat (bk + 1) < unat ?n"
        by simp
      have "begin_loop c bk = begin_loop c (bk + 1)"
        using False eq lt len True by (subst begin_loop.simps) simp
      moreover have "unat ?n - unat (bk + 1) < unat ?n - unat bk"
        using su lt by simp
      from less.hyps [OF this lt''] obtain it where it: "begin_loop c (bk + 1) = Inr it"
        "(if restFrom ?n linked (unat (bk + 1)) = [] then m_position it = - 1
          else \<exists>b'. b' < unat ?n \<and> unat (m_bucket it) = b' \<and>
              chainOf ?n linked b' \<noteq> [] \<and> m_position it = hd (chainOf ?n linked b') \<and>
              restFrom ?n linked (unat (bk + 1)) =
                chainOf ?n linked b' @ restFrom ?n linked (b' + 1))"
        by blast
      ultimately show ?thesis
        using rs emp su by (auto split: if_splits)
    qed
  qed
qed

lemma iterateAll_end: "m_position it = - 1 \<Longrightarrow> iterateAll c it = Some (Inr [])"
  by (subst iterateAll.simps) simp

lemma iterateAll_chain:
  fixes c :: "('s::len, 'h::len) container"
  assumes inv: "holds debug c (linked, emplaced)"
  shows "unat (m_bucket it) < unat (m_bucketCount c) \<Longrightarrow> ys \<noteq> [] \<Longrightarrow>
    isChain (m_nodeList c) (m_position it) ys \<Longrightarrow>
    iterateAll c it = Some (Inr (ys @ restFrom (m_bucketCount c) linked (unat (m_bucket it) + 1)))"
proof (induction "length ys + length (restFrom (m_bucketCount c) linked (unat (m_bucket it) + 1))"
    arbitrary: ys it rule: less_induct)
  case less
  let ?n = "m_bucketCount c"
  let ?ns = "m_nodeList c"
  let ?b = "unat (m_bucket it)"
  from less.prems(2) obtain x ys' where ys: "ys = x # ys'"
    by (cases ys) auto
  with less.prems(3) have px: "m_position it = x" and xm: "x \<noteq> - 1" and xr: "unat x < length ?ns"
    and tl: "isChain ?ns (next (?ns ! unat x)) ys'"
    by simp_all
  show ?case
  proof (cases "next (?ns ! unat x) = - 1")
    case False
    let ?it = "\<lparr>m_position = next (?ns ! unat x), m_bucket = m_bucket it\<rparr>"
    from tl False have ne: "ys' \<noteq> []"
      by (simp add: isChain_empty_iff)
    have inc: "Iterator_inc c it = Inr ?it"
      using px xr False by (simp add: Iterator_inc_def nextElement_def)
    have "iterateAll c ?it = Some (Inr (ys' @ restFrom ?n linked (?b + 1)))"
      using less.hyps [of ys' ?it] less.prems(1) ne tl ys by simp
    with px xm inc ys show ?thesis
      by (subst iterateAll.simps) simp
  next
    case True
    with tl have emp: "ys' = []"
      by (simp add: isChain_empty_iff)
    from nextElement_loop_spec [OF inv less.prems(1)] obtain it'
      where it': "nextElement_loop c (m_bucket it) = Inr it'"
        and sp: "(if restFrom ?n linked (?b + 1) = [] then m_position it' = - 1
          else \<exists>b'. ?b < b' \<and> b' < unat ?n \<and> unat (m_bucket it') = b' \<and>
              chainOf ?n linked b' \<noteq> [] \<and> m_position it' = hd (chainOf ?n linked b') \<and>
              restFrom ?n linked (?b + 1) = chainOf ?n linked b' @ restFrom ?n linked (b' + 1))"
      by blast
    have inc: "Iterator_inc c it = Inr it'"
      using px xr True it' by (simp add: Iterator_inc_def nextElement_def)
    have "iterateAll c it' = Some (Inr (restFrom ?n linked (?b + 1)))"
    proof (cases "restFrom ?n linked (?b + 1) = []")
      case True
      with sp show ?thesis
        by (simp add: iterateAll_end)
    next
      case False
      with sp obtain b' where b': "b' < unat ?n" "unat (m_bucket it') = b'"
        "chainOf ?n linked b' \<noteq> []" "m_position it' = hd (chainOf ?n linked b')"
        "restFrom ?n linked (?b + 1) = chainOf ?n linked b' @ restFrom ?n linked (b' + 1)"
        by auto
      from holds_chain [OF inv b'(1)] b'(3,4)
      have "isChain ?ns (m_position it') (chainOf ?n linked b')"
        by (simp add: isChain_head_first)
      with less.hyps [of "chainOf ?n linked b'" it'] b' ys show ?thesis
        by simp
    qed
    with px xm inc ys emp show ?thesis
      by (subst iterateAll.simps) simp
  qed
qed

lemma traverse_holds:
  fixes c :: "('s::len, 'h::len) container"
  assumes inv: "holds debug c (linked, emplaced)" and nz: "m_bucketCount c \<noteq> 0"
  shows "traverse c = Some (Inr (restFrom (m_bucketCount c) linked 0))"
proof -
  let ?n = "m_bucketCount c"
  from nz have z: "unat (0 :: 's word) < unat ?n"
    by (simp add: unat_gt_0)
  have u0: "unat (0 :: 's word) = 0"
    by simp
  from begin_loop_spec [OF inv z, unfolded u0] obtain it where it: "begin_loop c 0 = Inr it"
    and sp: "(if restFrom ?n linked 0 = [] then m_position it = - 1
       else \<exists>b'. b' < unat ?n \<and> unat (m_bucket it) = b' \<and>
              chainOf ?n linked b' \<noteq> [] \<and> m_position it = hd (chainOf ?n linked b') \<and>
              restFrom ?n linked 0 = chainOf ?n linked b' @ restFrom ?n linked (b' + 1))"
    by blast
  have "iterateAll c it = Some (Inr (restFrom ?n linked 0))"
  proof (cases "restFrom ?n linked 0 = []")
    case True
    with sp show ?thesis
      by (simp add: iterateAll_end)
  next
    case False
    with sp obtain b' where b': "b' < unat ?n" "unat (m_bucket it) = b'"
      "chainOf ?n linked b' \<noteq> []" "m_position it = hd (chainOf ?n linked b')"
      "restFrom ?n linked 0 = chainOf ?n linked b' @ restFrom ?n linked (b' + 1)"
      by auto
    from holds_chain [OF inv b'(1)] b'(3,4)
    have "isChain (m_nodeList c) (m_position it) (chainOf ?n linked b')"
      by (simp add: isChain_head_first)
    from iterateAll_chain [OF inv _ b'(3) this] b' show ?thesis
      by simp
  qed
  with it show ?thesis
    by (simp add: traverse_def begin_hc_def)
qed

section \<open>Lookups and walks on a container that holds its entries\<close>

lemma find_hc_holds:
  fixes c :: "('s::len, 'h::len) container"
  assumes inv: "holds debug c (linked, emplaced)" and nz: "m_bucketCount c \<noteq> 0"
  shows "find_hc c h =
           Some (Inr (case List.find (\<lambda>x. hash (m_nodeList c ! unat x) = high h)
                             (chainOf (m_bucketCount c) linked (unat (low h mod m_bucketCount c :: 's word))) of
                        None \<Rightarrow> - 1 | Some x \<Rightarrow> x))"
proof -
  note br = validSizes_bucket_in_range [OF holds_validSizes [OF inv] nz, of "low h"]
  note bl = bucket_index_less [OF nz, of "low h"]
  from findNext2_chain [OF holds_chain [OF inv bl]] nz br show ?thesis
    by (simp add: find_hc_def find2_def)
qed

lemma findAll_holds:
  fixes c :: "('s::len, 'h::len) container"
  assumes inv: "holds debug c (linked, emplaced)" and nz: "m_bucketCount c \<noteq> 0"
  shows "findAll c h =
           Some (Inr (filter (\<lambda>x. hash (m_nodeList c ! unat x) = high h)
                        (chainOf (m_bucketCount c) linked (unat (low h mod m_bucketCount c :: 's word)))))"
proof -
  note br = validSizes_bucket_in_range [OF holds_validSizes [OF inv] nz, of "low h"]
  note bl = bucket_index_less [OF nz, of "low h"]
  have "findAll c h = searchFrom c (high h) (first (m_bucketList c ! unat (low h mod m_bucketCount c :: 's word)))"
    using nz br by (simp add: findAll_def find_hc_def find2_def searchFrom_def)
  with searchFrom_chain [OF holds_chain [OF inv bl]] show ?thesis
    by simp
qed

lemma findEmplacedAll_holds:
  fixes c :: "('s::len, 'h::len) container"
  assumes inv: "holds debug c (linked, emplaced)" and pending: "(h, val) \<in> set emplaced"
  shows "findEmplacedAll debug c val =
           Some (Inr (filter (\<lambda>x. hash (m_nodeList c ! unat x) = high h)
                        (chainOf (m_bucketCount c) linked (unat (low h mod m_bucketCount c :: 's word)))))"
proof -
  from inv have sizes: "validSizes c"
    by (rule holds_validSizes)
  from holds_slot_range [OF inv, of "(h, val)"] pending have slot: "unat val < unat (m_nodeCount c)"
    by simp
  from slot have nm: "val \<noteq> - 1"
    by (rule slot_not_sentinel)
  from sizes slot have nz: "m_bucketCount c \<noteq> 0"
    by (rule validSizes_nonzero)
  from sizes slot have inr: "unat val < length (m_nodeList c)"
    by (simp add: validSizes_def)
  note br = validSizes_bucket_in_range [OF sizes nz, of "low h"]
  note bl = bucket_index_less [OF nz, of "low h"]
  note bm = word_mod_not_max [OF nz, of "low h"]
  from holds_emplaced [OF inv pending]
  have st: "hash (m_nodeList c ! unat val) = high h"
    "next (m_nodeList c ! unat val) = low h mod m_bucketCount c"
    by simp_all
  have "findEmplacedAll debug c val =
      searchFrom c (high h) (first (m_bucketList c ! unat (low h mod m_bucketCount c :: 's word)))"
    using nm inr st bm br by (simp add: findEmplacedAll_def findEmplaced_def find2_def searchFrom_def)
  with searchFrom_chain [OF holds_chain [OF inv bl]] show ?thesis
    by simp
qed

lemma emplaced_not_linked:
  assumes inv: "holds debug c (linked, emplaced)" and pending: "(h, val) \<in> set emplaced"
  shows "val \<notin> set (chainOf n linked b)"
proof
  assume "val \<in> set (chainOf n linked b)"
  then have "val \<in> snd ` set linked"
    by (rule chainOf_subset)
  moreover from pending have "val \<in> snd ` set emplaced"
    by force
  moreover from holds_distinct [OF inv] have "snd ` set linked \<inter> snd ` set emplaced = {}"
    by simp
  ultimately show False
    by blast
qed

lemma entry_in_own_chain:
  fixes c :: "('s::len, 'h::len) container"
  assumes inv: "holds debug c (linked, emplaced)" and live: "(h, val) \<in> set linked"
  shows "val \<in> set (filter (\<lambda>x. hash (m_nodeList c ! unat x) = high h)
            (chainOf (m_bucketCount c) linked (unat (low h mod m_bucketCount c :: 's word))))"
proof -
  from holds_distinct [OF inv] have dl: "distinct (map snd linked)"
    by simp
  from chainOf_member [OF dl live, of "m_bucketCount c" "unat (low h mod m_bucketCount c :: 's word)"]
  have "val \<in> set (chainOf (m_bucketCount c) linked (unat (low h mod m_bucketCount c :: 's word)))"
    by simp
  with holds_hash [OF inv live] show ?thesis
    by simp
qed

lemma holds_nonzero:
  fixes c :: "('s::len, 'h::len) container"
  assumes inv: "holds debug c (linked, emplaced)" and ne: "e \<in> set linked \<union> set emplaced"
  shows "m_bucketCount c \<noteq> 0"
  using validSizes_nonzero [OF holds_validSizes [OF inv] holds_slot_range [OF inv ne]] .

lemma localAll_chain:
  fixes c :: "('s::len, 'h::len) container"
  assumes inv: "holds debug c (linked, emplaced)"
  shows "unat (m_bucket it) < unat (m_bucketCount c) \<Longrightarrow>
    isChain (m_nodeList c) (m_position it) ys \<Longrightarrow> localAll c it = Some (Inr ys)"
proof (induction ys arbitrary: it)
  case Nil
  then show ?case
    by (subst localAll.simps) simp
next
  case (Cons x ys)
  let ?ns = "m_nodeList c"
  from Cons.prems(2) have px: "m_position it = x" and xm: "x \<noteq> - 1" and xr: "unat x < length ?ns"
    and tl: "isChain ?ns (next (?ns ! unat x)) ys"
    by simp_all
  show ?case
  proof (cases "next (?ns ! unat x) = - 1")
    case False
    let ?it = "\<lparr>m_position = next (?ns ! unat x), m_bucket = m_bucket it\<rparr>"
    have inc: "LocalIterator_inc c it = Inr ?it"
      using px xr False by (simp add: LocalIterator_inc_def Iterator_inc_def nextElement_def)
    have "localAll c ?it = Some (Inr ys)"
      using Cons.IH [of ?it] Cons.prems(1) tl by simp
    with px xm inc show ?thesis
      by (subst localAll.simps) simp
  next
    case True
    with tl have emp: "ys = []"
      by (simp add: isChain_empty_iff)
    let ?n = "m_bucketCount c"
    let ?b = "unat (m_bucket it)"
    from nextElement_loop_spec [OF inv Cons.prems(1)] obtain it'
      where it': "nextElement_loop c (m_bucket it) = Inr it'"
        and sp: "(if restFrom ?n linked (?b + 1) = [] then m_position it' = - 1
          else \<exists>b'. ?b < b' \<and> b' < unat ?n \<and> unat (m_bucket it') = b' \<and>
              chainOf ?n linked b' \<noteq> [] \<and> m_position it' = hd (chainOf ?n linked b') \<and>
              restFrom ?n linked (?b + 1) = chainOf ?n linked b' @ restFrom ?n linked (b' + 1))"
      by blast
    have "m_position it' = - 1 \<or> m_bucket it' \<noteq> m_bucket it"
      using sp by (auto split: if_splits)
    then obtain it'' where inc: "LocalIterator_inc c it = Inr it''" and e: "m_position it'' = - 1"
      using px xr True it' by (auto simp: LocalIterator_inc_def Iterator_inc_def nextElement_def)
    have "localAll c it'' = Some (Inr [])"
      using e by (subst localAll.simps) simp
    with px xm inc emp show ?thesis
      by (subst localAll.simps) simp
  qed
qed

lemma traverseBucket_holds:
  fixes c :: "('s::len, 'h::len) container"
  assumes inv: "holds debug c (linked, emplaced)" and b: "unat bk < unat (m_bucketCount c)"
  shows "traverseBucket c bk = Some (Inr (chainOf (m_bucketCount c) linked (unat bk)))"
proof -
  from holds_validSizes [OF inv] b have "unat bk < length (m_bucketList c)"
    by (simp add: validSizes_def)
  with localAll_chain [OF inv, of "\<lparr>m_position = first (m_bucketList c ! unat bk), m_bucket = bk\<rparr>"]
    holds_chain [OF inv b] b
  show ?thesis
    by (simp add: traverseBucket_def localBegin_def)
qed

lemma restFrom_set:
  fixes n :: "'s::len word"
  assumes "n \<noteq> 0"
  shows "set (restFrom n linked 0) = snd ` set linked"
proof -
  have "unat ((low (fst e) :: 's word) mod n) < unat n" for e
  proof -
    from assms have "0 < n"
      by (simp add: word_neq_0_conv)
    then have "(low (fst e) :: 's word) mod n < n"
      by (rule word_mod_less_divisor)
    then show ?thesis
      by (simp add: word_less_nat_alt)
  qed
  then show ?thesis
    unfolding restFrom_def chainOf_def by force
qed

lemma count_bucket: "sum_list (map (\<lambda>b. if k = b then 1 else 0) [0..<n]) = (if k < n then 1 else (0::nat))"
  by (induction n) auto

lemma restFrom_length:
  fixes n :: "'s::len word"
  assumes "n \<noteq> 0"
  shows "length (restFrom n linked 0) = length linked"
proof -
  have bound: "unat ((low h :: 's word) mod n) < unat n" for h
  proof -
    from assms have "0 < n"
      by (simp add: word_neq_0_conv)
    then have "(low h :: 's word) mod n < n"
      by (rule word_mod_less_divisor)
    then show ?thesis
      by (simp add: word_less_nat_alt)
  qed
  have "sum_list (map (\<lambda>b. length (chainOf n linked b)) [0..<unat n]) = length linked"
  proof (induction linked)
    case Nil
    then show ?case
      by (simp add: chainOf_def)
  next
    case (Cons e linked)
    have "length (chainOf n (e # linked) b) =
        (if unat ((low (fst e) :: 's word) mod n) = b then 1 else 0) + length (chainOf n linked b)" for b
      by (simp add: chainOf_def)
    then have "sum_list (map (\<lambda>b. length (chainOf n (e # linked) b)) [0..<unat n]) =
        sum_list (map (\<lambda>b. if unat ((low (fst e) :: 's word) mod n) = b then 1 else 0) [0..<unat n])
        + sum_list (map (\<lambda>b. length (chainOf n linked b)) [0..<unat n])"
      by (simp add: sum_list_addf)
    with Cons bound [of "fst e"] show ?case
      by (simp add: count_bucket)
  qed
  then show ?thesis
    by (simp add: restFrom_def length_concat comp_def)
qed

lemma restFrom_distinct:
  fixes n :: "'s::len word"
  assumes nz: "n \<noteq> 0" and d: "distinct (map snd linked)"
  shows "distinct (restFrom n linked 0)"
proof -
  from d have "card (snd ` set linked) = length linked"
    using distinct_card [of "map snd linked"] by simp
  with restFrom_set [OF nz, of linked] restFrom_length [OF nz, of linked]
  have "card (set (restFrom n linked 0)) = length (restFrom n linked 0)"
    by simp
  then show ?thesis
    by (rule card_distinct)
qed

lemma isChain_from_member:
  "isChain ns p xs \<Longrightarrow> x \<in> set xs \<Longrightarrow> \<exists>post. isChain ns x (x # post) \<and> set post \<subseteq> set xs"
proof (induction xs arbitrary: p)
  case Nil
  then show ?case by simp
next
  case (Cons y ys)
  show ?case
  proof (cases "x = y")
    case True
    with Cons.prems(1) have "isChain ns x (x # ys)"
      by simp
    then show ?thesis
      by auto
  next
    case False
    with Cons.prems have "isChain ns (next (ns ! unat y)) ys" "x \<in> set ys"
      by simp_all
    from Cons.IH [OF this] show ?thesis
      by auto
  qed
qed

lemma searchAll_linked:
  fixes c :: "('s::len, 'h::len) container"
  assumes inv: "holds debug c (linked, emplaced)" and live: "(h, val) \<in> set linked"
  shows "\<exists>ys. searchAll c val = Some (Inr (val # ys))"
proof -
  let ?n = "m_bucketCount c"
  let ?b = "unat (low h mod ?n :: 's word)"
  from holds_nonzero [OF inv, of "(h, val)"] live have nz: "?n \<noteq> 0"
    by simp
  note bl = bucket_index_less [OF nz, of "low h"]
  from holds_distinct [OF inv] have dl: "distinct (map snd linked)"
    by simp
  from chainOf_member [OF dl live, of ?n ?b] have "val \<in> set (chainOf ?n linked ?b)"
    by simp
  from isChain_from_member [OF holds_chain [OF inv bl] this] obtain post
    where ch: "isChain (m_nodeList c) val (val # post)"
    by blast
  then have "findNext2 c (hash (m_nodeList c ! unat val)) val = Some (Inr val)"
    by (subst findNext2.simps) simp
  with searchFrom_chain [OF ch, of "hash (m_nodeList c ! unat val)"] show ?thesis
    by (simp add: searchFrom_def)
qed

lemma remove_terminates:
  fixes c :: "('s::len, 'h::len) container"
  assumes inv: "holds debug c (linked, emplaced)"
  shows "\<exists>r. remove_hc debug c h val = Some r"
proof (cases "unat val < length (m_nodeList c) \<and> hash (m_nodeList c ! unat val) = high h
    \<and> m_bucketCount c \<noteq> 0")
  case False
  then show ?thesis
    by (auto simp: remove_hc_def)
next
  case True
  let ?n = "m_bucketCount c"
  let ?b = "unat (low h mod ?n :: 's word)"
  let ?ch = "chainOf ?n linked ?b"
  from True have nz: "?n \<noteq> 0" and inr: "unat val < length (m_nodeList c)"
    by simp_all
  from holds_validSizes [OF inv] inr have "unat val < unat (m_nodeCount c)"
    by (simp add: validSizes_def)
  then have nm: "val \<noteq> - 1"
    by (rule slot_not_sentinel)
  note bl = bucket_index_less [OF nz, of "low h"]
  note br = validSizes_bucket_in_range [OF holds_validSizes [OF inv] nz, of "low h"]
  note ch = holds_chain [OF inv bl]
  from holds_distinct [OF inv] have dch: "distinct ?ch"
    by (simp add: chainOf_distinct)
  show ?thesis
  proof (cases "first (m_bucketList c ! ?b) = val")
    case True
    with \<open>unat val < length (m_nodeList c) \<and> hash (m_nodeList c ! unat val) = high h
        \<and> m_bucketCount c \<noteq> 0\<close> br show ?thesis
      by (simp add: remove_hc_def Let_def)
  next
    case False
    have "\<exists>r. remove_loop (m_nodeList c) val (first (m_bucketList c ! ?b)) = Some r"
    proof (cases "val \<in> set ?ch")
      case False
      from remove_loop_skip [OF ch False nm] show ?thesis
        by blast
    next
      case True
      then obtain xs ys where split: "?ch = xs @ val # ys"
        by (auto simp: in_set_conv_decomp)
      with ch \<open>first (m_bucketList c ! ?b) \<noteq> val\<close> have "xs \<noteq> []"
        by (cases xs) auto
      from remove_loop_relink [OF ch [unfolded split] this dch [unfolded split]] show ?thesis
        by blast
    qed
    then obtain r where "remove_loop (m_nodeList c) val (first (m_bucketList c ! ?b)) = Some r"
      by blast
    with False \<open>unat val < length (m_nodeList c) \<and> hash (m_nodeList c ! unat val) = high h
        \<and> m_bucketCount c \<noteq> 0\<close> br show ?thesis
      by (cases r) (simp_all add: remove_hc_def Let_def)
  qed
qed

section \<open>The claims\<close>

text \<open>
  The theorems about containers in use share four hypotheses: the width of
  \<^verbatim>\<open>sizeType\<close> is at most 64 bits (the header's static assertion), the entry
  count \<open>e\<close> is one the constructor accepts, the allocator grants the two arrays
  (construction does not end in the allocation error), and the caller made the
  operations \<open>ops\<close> on the fresh container within its obligations, which leaves the
  entries \<open>linked\<close> (most recent first) and \<open>emplaced\<close>.
  \<open>build debug heap e ops\<close> is the container these operations produce. The theorems
  hold for debug and release builds.
\<close>

lemma track_inserts:
  "track n (linked, emplaced) (map (Insert h) slots) = Some g \<Longrightarrow>
   g = (rev (map (Pair h) slots) @ linked, emplaced)"
proof (induction slots arbitrary: linked)
  case Nil
  then show ?case by simp
next
  case (Cons s slots)
  then show ?case
    by (auto split: if_splits)
qed

lemma track_append:
  "track n g (xs @ ys) = (case track n g xs of None \<Rightarrow> None | Some g' \<Rightarrow> track n g' ys)"
  by (induction xs arbitrary: g) (simp_all split: option.splits)

lemma chainOf_same_hash:
  "chainOf n (map (Pair h) xs) (unat ((low h :: 's::len word) mod n)) = xs"
  by (induction xs) (simp_all add: chainOf_def)

lemma filter_all: "\<forall>x \<in> set xs. P x \<Longrightarrow> filter P xs = xs"
  by (induction xs) auto

text \<open>
  Claim C1, as stated, fails on the container with no buckets, which construction
  with zero entries gives: \<^verbatim>\<open>find\<close> reduces the hash modulo \<^verbatim>\<open>m_bucketCount\<close>,
  which is 0 there, and returns no cursor.
\<close>

theorem find_divides_by_zero_on_zero_capacity:
  "create True 4096 0 =
     Inr (\<lparr>m_bucketCount = 0, m_nodeCount = 0, m_bucketList = [], m_nodeList = []\<rparr>
            :: (32, 32) container) \<and>
   find_hc (\<lparr>m_bucketCount = 0, m_nodeCount = 0, m_bucketList = [], m_nodeList = []\<rparr>
              :: (32, 32) container) 0 = Some (Inl DivisionByZero)"
proof -
  have "LENGTH(32) \<le> 64"
    by simp
  from create_eq [OF this, of True 4096 0, where 'h = 32]
  have "create True 4096 0 =
     Inr (\<lparr>m_bucketCount = 0, m_nodeCount = 0, m_bucketList = [], m_nodeList = []\<rparr>
            :: (32, 32) container)"
    by (simp add: unat_max_word)
  then show ?thesis
    by (simp add: find_hc_def)
qed

text \<open>
  Claim C1, amended. On a container with at least one bucket, \<^verbatim>\<open>find(h)\<close> returns
  the first slot, in the chain of bucket \<^verbatim>\<open>low(h) % m_bucketCount\<close>, whose stored
  fragment is \<^verbatim>\<open>high(h)\<close>, and the sentinel when the chain has none. That chain is
  the list of the linked slots of the bucket, most recent first. When the container
  holds no linked entry (it is fresh, or earlier operations \<open>before\<close> have left it
  without one) and the caller then inserts the slots \<open>slots\<close>, as many as it likes up
  to the capacity, all under the hash \<open>h\<close>, running the cursor of \<^verbatim>\<open>find(h)\<close> to
  its end yields \<open>rev slots\<close>: all of them, in reverse insertion order, and then the
  cursor is invalid.
\<close>

theorem find_first_match_and_reverse_insertion_order:
  fixes e :: "64 word"
  assumes len: "LENGTH('s::len) \<le> 64"
    and small: "unat e < unat (- 1 :: 's word) div 2"
    and room: "(create debug heap e :: error + ('s, 'h::len) container) \<noteq> Inl AllocationError"
    and capacity: "e \<noteq> 0"
    and tracked: "track (unat e) ([], []) ops = Some (linked, emplaced)"
  shows "\<exists>c :: ('s, 'h::len) container.
           build debug heap e ops = Some (Inr c) \<and>
           isChain (m_nodeList c) (first (m_bucketList c ! unat (low h mod m_bucketCount c :: 's word)))
             (chainOf (m_bucketCount c) linked (unat (low h mod m_bucketCount c :: 's word))) \<and>
           find_hc c h =
             Some (Inr (case List.find (\<lambda>x. hash (m_nodeList c ! unat x) = high h)
                               (chainOf (m_bucketCount c) linked (unat (low h mod m_bucketCount c :: 's word))) of
                          None \<Rightarrow> - 1 | Some x \<Rightarrow> x)) \<and>
           (ops = before @ map (Insert h) slots \<and>
            track (unat e) ([], []) before = Some ([], pending) \<longrightarrow>
              findAll c h = Some (Inr (rev slots)))"
proof -
  from holds_build [OF len small room tracked]
  obtain c :: "('s, 'h) container"
    where c: "build debug heap e ops = Some (Inr c)" and inv: "holds debug c (linked, emplaced)"
      and bc: "unat (m_bucketCount c) = 2 * unat e"
    by blast
  from capacity have "unat e \<noteq> 0"
    by (simp add: unat_eq_zero)
  with bc have nz: "m_bucketCount c \<noteq> 0"
    by auto
  note bl = bucket_index_less [OF nz, of "low h"]
  have "findAll c h = Some (Inr (rev slots))"
    if ops: "ops = before @ map (Insert h) slots"
      and emptied: "track (unat e) ([], []) before = Some ([], pending)"
  proof -
    from tracked ops emptied
    have "track (unat e) ([], pending) (map (Insert h) slots) = Some (linked, emplaced)"
      by (simp add: track_append)
    from track_inserts [OF this] have l: "linked = rev (map (Pair h) slots)"
      by simp
    then have "chainOf (m_bucketCount c) linked (unat (low h mod m_bucketCount c :: 's word)) = rev slots"
      using chainOf_same_hash [of "m_bucketCount c" h "rev slots"] by (simp add: rev_map)
    moreover have "\<forall>x \<in> set (rev slots). hash (m_nodeList c ! unat x) = high h"
    proof
      fix x
      assume "x \<in> set (rev slots)"
      with l have "(h, x) \<in> set linked"
        by auto
      from holds_hash [OF inv this] show "hash (m_nodeList c ! unat x) = high h"
        by simp
    qed
    ultimately show ?thesis
      using findAll_holds [OF inv nz, of h] by (simp add: filter_all)
  qed
  with c holds_chain [OF inv bl] find_hc_holds [OF inv nz, of h] show ?thesis
    by blast
qed

theorem find_first_match_and_reverse_insertion_order_witness:
  "\<exists>c :: (8, 8) container.
     build True 4096 3 [Insert 9 1, Remove 9 1, Insert 5 2, Insert 5 0, Insert 5 1] = Some (Inr c) \<and>
     find_hc c 5 = Some (Inr 1) \<and>
     findAll c 5 = Some (Inr [1, 0, 2])"
proof -
  have len: "LENGTH(8) \<le> 64"
    by simp
  have small: "unat (3 :: 64 word) < unat (- 1 :: 8 word) div 2"
    by (simp add: unat_max_word)
  have room: "(create True 4096 3 :: error + (8, 8) container) \<noteq> Inl AllocationError"
    by (simp add: create_eq unat_max_word)
  have capacity: "(3 :: 64 word) \<noteq> 0"
    by simp
  have tracked: "track (unat (3 :: 64 word)) ([], [])
      ([Insert 9 1, Remove 9 1] @ map (Insert 5) [2, 0, 1 :: 8 word])
      = Some ([(5, 1), (5, 0), (5, 2)], [])"
    by simp
  have emptied: "track (unat (3 :: 64 word)) ([], []) [Insert 9 1, Remove 9 (1 :: 8 word)]
      = Some ([], [])"
    by simp
  from find_first_match_and_reverse_insertion_order
    [OF len small room capacity tracked, of 5 "[Insert 9 1, Remove 9 1]" "[2, 0, 1]" "[]"]
  obtain c :: "(8, 8) container"
    where built: "build True 4096 3 ([Insert 9 1, Remove 9 1] @ map (Insert 5) [2, 0, 1])
        = Some (Inr c)"
      and order: "track (unat (3 :: 64 word)) ([], []) [Insert 9 1, Remove 9 (1 :: 8 word)]
          = Some ([], []) \<longrightarrow> findAll c 5 = Some (Inr (rev [2, 0, 1]))"
    by blast
  from order emptied have f: "findAll c 5 = Some (Inr (rev [2, 0, 1]))"
    by (rule mp)
  from built have c: "build True 4096 3 [Insert 9 1, Remove 9 1, Insert 5 2, Insert 5 0, Insert 5 1]
      = Some (Inr c)"
    by simp
  have "build True 4096 3 [Insert 9 1, Remove 9 1, Insert 5 2, Insert 5 0, Insert 5 1] =
      Some (Inr (\<lparr>m_bucketCount = 6, m_nodeCount = 3,
        m_bucketList = [\<lparr>first = - 1\<rparr>, \<lparr>first = - 1\<rparr>, \<lparr>first = - 1\<rparr>,
                        \<lparr>first = - 1\<rparr>, \<lparr>first = - 1\<rparr>, \<lparr>first = 1\<rparr>],
        m_nodeList = [\<lparr>hash = 0, next = 2\<rparr>, \<lparr>hash = 0, next = 0\<rparr>,
                      \<lparr>hash = 0, next = - 1\<rparr>]\<rparr> :: (8, 8) container))"
    by code_simp
  with c have "c = \<lparr>m_bucketCount = 6, m_nodeCount = 3,
        m_bucketList = [\<lparr>first = - 1\<rparr>, \<lparr>first = - 1\<rparr>, \<lparr>first = - 1\<rparr>,
                        \<lparr>first = - 1\<rparr>, \<lparr>first = - 1\<rparr>, \<lparr>first = 1\<rparr>],
        m_nodeList = [\<lparr>hash = 0, next = 2\<rparr>, \<lparr>hash = 0, next = 0\<rparr>,
                      \<lparr>hash = 0, next = - 1\<rparr>]\<rparr>"
    by auto
  moreover have "find_hc (\<lparr>m_bucketCount = 6, m_nodeCount = 3,
        m_bucketList = [\<lparr>first = - 1\<rparr>, \<lparr>first = - 1\<rparr>, \<lparr>first = - 1\<rparr>,
                        \<lparr>first = - 1\<rparr>, \<lparr>first = - 1\<rparr>, \<lparr>first = 1\<rparr>],
        m_nodeList = [\<lparr>hash = 0, next = 2\<rparr>, \<lparr>hash = 0, next = 0\<rparr>,
                      \<lparr>hash = 0, next = - 1\<rparr>]\<rparr> :: (8, 8) container) 5 = Some (Inr 1)"
    by code_simp
  ultimately show ?thesis
    using c f by simp
qed

text \<open>
  Claim C2. On any container, \<^verbatim>\<open>remove(h0, val0)\<close> of a slot in range whose stored
  fragment differs from \<^verbatim>\<open>high(h0)\<close> returns the container unchanged. For a
  linked entry \<open>(h, val)\<close>, \<^verbatim>\<open>remove(h, val)\<close> succeeds and takes \<open>val\<close> out of
  the chain of its bucket, leaving the other slots of the chain in their order;
  afterwards \<^verbatim>\<open>find(h)\<close> run to its end does not yield \<open>val\<close>, and every other
  linked entry is still among the slots that \<^verbatim>\<open>find\<close> with its hash yields.
\<close>

theorem remove_unlinks_the_slot:
  fixes e :: "64 word" and c0 :: "('s::len, 'h::len) container"
  assumes len: "LENGTH('s) \<le> 64"
    and small: "unat e < unat (- 1 :: 's word) div 2"
    and room: "(create debug heap e :: error + ('s, 'h::len) container) \<noteq> Inl AllocationError"
    and tracked: "track (unat e) ([], []) ops = Some (linked, emplaced)"
    and live: "(h, val) \<in> set linked"
  shows "(unat val0 < length (m_nodeList c0) \<and> hash (m_nodeList c0 ! unat val0) \<noteq> high h0 \<longrightarrow>
            remove_hc debug c0 h0 val0 = Some (Inr c0)) \<and>
         (\<exists>c c' :: ('s, 'h) container.
            build debug heap e ops = Some (Inr c) \<and>
            remove_hc debug c h val = Some (Inr c') \<and>
            isChain (m_nodeList c') (first (m_bucketList c' ! unat (low h mod m_bucketCount c :: 's word)))
              (filter (\<lambda>x. x \<noteq> val)
                 (chainOf (m_bucketCount c) linked (unat (low h mod m_bucketCount c :: 's word)))) \<and>
            (\<exists>xs. findAll c' h = Some (Inr xs) \<and> val \<notin> set xs) \<and>
            (\<forall>e' \<in> set linked. snd e' \<noteq> val \<longrightarrow>
               (\<exists>ys. findAll c' (fst e') = Some (Inr ys) \<and> snd e' \<in> set ys)))"
proof -
  have first: "unat val0 < length (m_nodeList c0) \<and> hash (m_nodeList c0 ! unat val0) \<noteq> high h0 \<longrightarrow>
      remove_hc debug c0 h0 val0 = Some (Inr c0)"
    by (simp add: remove_hc_def)
  from holds_build [OF len small room tracked]
  obtain c :: "('s, 'h) container"
    where c: "build debug heap e ops = Some (Inr c)" and inv: "holds debug c (linked, emplaced)"
    by blast
  let ?li = "filter (\<lambda>e. snd e \<noteq> val) linked"
  have "track_op (unat (m_nodeCount c)) (linked, emplaced) (Remove h val) = Some (?li, emplaced)"
    using live by simp
  from holds_step [OF inv this] obtain c'
    where c': "remove_hc debug c h val = Some (Inr c')" and inv': "holds debug c' (?li, emplaced)"
      and bc: "m_bucketCount c' = m_bucketCount c"
    by auto
  from holds_nonzero [OF inv, of "(h, val)"] live have nz: "m_bucketCount c \<noteq> 0"
    by simp
  with bc have nz': "m_bucketCount c' \<noteq> 0"
    by simp
  note bl = bucket_index_less [OF nz', of "low h"]
  have ch: "isChain (m_nodeList c') (first (m_bucketList c' ! unat (low h mod m_bucketCount c :: 's word)))
      (filter (\<lambda>x. x \<noteq> val)
         (chainOf (m_bucketCount c) linked (unat (low h mod m_bucketCount c :: 's word))))"
    using holds_chain [OF inv' bl] bc by (simp add: chainOf_filter)
  have gone: "\<exists>xs. findAll c' h = Some (Inr xs) \<and> val \<notin> set xs"
    using findAll_holds [OF inv' nz', of h] by (simp add: chainOf_filter)
  have others: "\<exists>ys. findAll c' (fst e') = Some (Inr ys) \<and> snd e' \<in> set ys"
    if "e' \<in> set linked" "snd e' \<noteq> val" for e'
  proof -
    from that have "(fst e', snd e') \<in> set ?li"
      by simp
    from entry_in_own_chain [OF inv' this] findAll_holds [OF inv' nz', of "fst e'"] show ?thesis
      by simp
  qed
  from first c c' ch gone others show ?thesis
    by blast
qed

theorem remove_unlinks_the_slot_witness:
  "\<exists>c c' :: (8, 8) container.
     build True 4096 3 [Insert 5 2, Insert 5 0, Insert 4 1] = Some (Inr c) \<and>
     remove_hc True c 5 0 = Some (Inr c') \<and>
     findAll c 5 = Some (Inr [0, 2]) \<and>
     findAll c' 5 = Some (Inr [2]) \<and> findAll c' 4 = Some (Inr [1])"
proof -
  have len: "LENGTH(8) \<le> 64"
    by simp
  have small: "unat (3 :: 64 word) < unat (- 1 :: 8 word) div 2"
    by (simp add: unat_max_word)
  have room: "(create True 4096 3 :: error + (8, 8) container) \<noteq> Inl AllocationError"
    by (simp add: create_eq unat_max_word)
  have tracked: "track (unat (3 :: 64 word)) ([], []) [Insert 5 2, Insert 5 0, Insert 4 (1 :: 8 word)]
      = Some ([(4, 1), (5, 0), (5, 2)], [])"
    by simp
  have live: "(5 :: 64 word, 0 :: 8 word) \<in> set [(4, 1), (5, 0), (5, 2)]"
    by simp
  from remove_unlinks_the_slot [OF len small room tracked live]
  obtain c c' :: "(8, 8) container"
    where c: "build True 4096 3 [Insert 5 2, Insert 5 0, Insert 4 1] = Some (Inr c)"
      and c': "remove_hc True c 5 0 = Some (Inr c')"
    by blast
  have "case build True 4096 3 [Insert 5 2, Insert 5 0, Insert 4 1] of
      Some (Inr (c :: (8, 8) container)) \<Rightarrow>
        findAll c 5 = Some (Inr [0, 2]) \<and>
        (case remove_hc True c 5 0 of
           Some (Inr c') \<Rightarrow> findAll c' 5 = Some (Inr [2]) \<and> findAll c' 4 = Some (Inr [1])
         | _ \<Rightarrow> False)
    | _ \<Rightarrow> False"
    by code_simp
  with c c' show ?thesis
    by simp
qed

text \<open>
  Claim C3. Let the node array have \<^verbatim>\<open>m_nodeCount\<close> nodes and let \<open>val\<close> be a slot
  below \<^verbatim>\<open>m_nodeCount\<close> that is unoccupied (in a debug build its node holds the two
  sentinels, which is what the assertions test; a release build tests nothing). Then
  \<^verbatim>\<open>emplace(h, val)\<close> followed by \<^verbatim>\<open>insertEmplaced(val)\<close> gives the same result
  as \<^verbatim>\<open>insert(h, val)\<close>: the same node array and the same bucket array. With the
  sizes the constructor gives a container, the result is a container, not an error.
\<close>

theorem emplace_then_insertEmplaced:
  fixes c :: "('s::len, 'h::len) container"
  assumes nodes: "length (m_nodeList c) = unat (m_nodeCount c)"
    and slot: "unat val < unat (m_nodeCount c)"
    and unoccupied: "debug \<longrightarrow> next (m_nodeList c ! unat val) = - 1 \<and> hash (m_nodeList c ! unat val) = - 1"
  shows "(case emplace debug c h val of
            Inl e \<Rightarrow> Inl e
          | Inr c' \<Rightarrow> insertEmplaced debug c' val) = insert_hc debug c h val
         \<and> (validSizes c \<longrightarrow> (\<exists>c''. insert_hc debug c h val = Inr c''))"
proof -
  from slot have nm: "val \<noteq> - 1"
    by (rule slot_not_sentinel)
  from nodes slot have inr: "unat val < length (m_nodeList c)"
    by simp
  have same: "(case emplace debug c h val of
            Inl e \<Rightarrow> Inl e
          | Inr c' \<Rightarrow> insertEmplaced debug c' val) = insert_hc debug c h val"
  proof (cases "m_bucketCount c = 0")
    case True
    with nm inr unoccupied show ?thesis
      by (simp add: emplace_def insert_hc_def)
  next
    case False
    note bm = word_mod_not_max [OF False, of "low h"]
    from nm inr bm unoccupied False show ?thesis
      by (simp add: emplace_def insertEmplaced_def insert_hc_def Let_def)
  qed
  have "\<exists>c''. insert_hc debug c h val = Inr c''" if sizes: "validSizes c"
  proof -
    from sizes slot have nz: "m_bucketCount c \<noteq> 0"
      by (rule validSizes_nonzero)
    note br = validSizes_bucket_in_range [OF sizes nz, of "low h"]
    from nz inr br unoccupied show ?thesis
      by (simp add: insert_hc_def Let_def)
  qed
  with same show ?thesis
    by blast
qed

theorem emplace_then_insertEmplaced_witness:
  "(case emplace True
           (\<lparr>m_bucketCount = 4, m_nodeCount = 2, m_bucketList = replicate 4 poisonBucket,
             m_nodeList = replicate 2 poisonNode\<rparr> :: (8, 8) container) 5 1 of
      Inl e \<Rightarrow> Inl e
    | Inr c' \<Rightarrow> insertEmplaced True c' 1) =
   insert_hc True
     (\<lparr>m_bucketCount = 4, m_nodeCount = 2, m_bucketList = replicate 4 poisonBucket,
       m_nodeList = replicate 2 poisonNode\<rparr> :: (8, 8) container) 5 1 \<and>
   (\<exists>c''. insert_hc True
            (\<lparr>m_bucketCount = 4, m_nodeCount = 2, m_bucketList = replicate 4 poisonBucket,
              m_nodeList = replicate 2 poisonNode\<rparr> :: (8, 8) container) 5 1 = Inr c'')"
proof -
  let ?c = "\<lparr>m_bucketCount = 4, m_nodeCount = 2, m_bucketList = replicate 4 poisonBucket,
             m_nodeList = replicate 2 poisonNode\<rparr> :: (8, 8) container"
  have nodes: "length (m_nodeList ?c) = unat (m_nodeCount ?c)"
    by simp
  have sizes: "validSizes ?c"
    by (simp add: validSizes_def unat_max_word)
  have slot: "unat (1 :: 8 word) < unat (m_nodeCount ?c)"
    by simp
  have unoccupied: "True \<longrightarrow> next (m_nodeList ?c ! unat (1 :: 8 word)) = - 1 \<and>
      hash (m_nodeList ?c ! unat (1 :: 8 word)) = - 1"
    by (simp add: poisonNode_def)
  from emplace_then_insertEmplaced [OF nodes slot unoccupied, of 5] sizes show ?thesis
    by simp
qed

text \<open>
  Claim C4. For a slot \<open>val\<close> emplaced under \<open>h\<close> and not linked yet, running the
  cursor of \<^verbatim>\<open>findEmplaced(val)\<close> to its end yields the slots of the chain of bucket
  \<^verbatim>\<open>low(h) % m_bucketCount\<close> (the linked entries of that bucket) whose stored fragment
  is \<^verbatim>\<open>high(h)\<close>, in chain order; \<open>val\<close> is not in that chain.
\<close>

theorem findEmplaced_yields_linked_matches:
  fixes e :: "64 word"
  assumes len: "LENGTH('s::len) \<le> 64"
    and small: "unat e < unat (- 1 :: 's word) div 2"
    and room: "(create debug heap e :: error + ('s, 'h::len) container) \<noteq> Inl AllocationError"
    and tracked: "track (unat e) ([], []) ops = Some (linked, emplaced)"
    and pending: "(h, val) \<in> set emplaced"
  shows "\<exists>c :: ('s, 'h::len) container.
           build debug heap e ops = Some (Inr c) \<and>
           isChain (m_nodeList c) (first (m_bucketList c ! unat (low h mod m_bucketCount c :: 's word)))
             (chainOf (m_bucketCount c) linked (unat (low h mod m_bucketCount c :: 's word))) \<and>
           findEmplacedAll debug c val =
             Some (Inr (filter (\<lambda>x. hash (m_nodeList c ! unat x) = high h)
                          (chainOf (m_bucketCount c) linked (unat (low h mod m_bucketCount c :: 's word))))) \<and>
           val \<notin> set (chainOf (m_bucketCount c) linked (unat (low h mod m_bucketCount c :: 's word)))"
proof -
  from holds_build [OF len small room tracked]
  obtain c :: "('s, 'h) container"
    where c: "build debug heap e ops = Some (Inr c)" and inv: "holds debug c (linked, emplaced)"
    by blast
  from holds_nonzero [OF inv, of "(h, val)"] pending have nz: "m_bucketCount c \<noteq> 0"
    by simp
  note bl = bucket_index_less [OF nz, of "low h"]
  from c holds_chain [OF inv bl] findEmplacedAll_holds [OF inv pending]
    emplaced_not_linked [OF inv pending]
  show ?thesis
    by blast
qed

theorem findEmplaced_yields_linked_matches_witness:
  "\<exists>c :: (8, 8) container.
     build True 4096 3 [Emplace 5 2, Emplace 5 0, Emplace 5 1, InsertEmplaced 2] = Some (Inr c) \<and>
     findEmplacedAll True c 0 = Some (Inr [2]) \<and> findEmplacedAll True c 1 = Some (Inr [2])"
proof -
  have len: "LENGTH(8) \<le> 64"
    by simp
  have small: "unat (3 :: 64 word) < unat (- 1 :: 8 word) div 2"
    by (simp add: unat_max_word)
  have room: "(create True 4096 3 :: error + (8, 8) container) \<noteq> Inl AllocationError"
    by (simp add: create_eq unat_max_word)
  have tracked: "track (unat (3 :: 64 word)) ([], [])
      [Emplace 5 2, Emplace 5 0, Emplace 5 1, InsertEmplaced (2 :: 8 word)]
      = Some ([(5, 2)], [(5, 1), (5, 0)])"
    by simp
  have pending: "(5 :: 64 word, 0 :: 8 word) \<in> set [(5, 1), (5, 0)]"
    by simp
  from findEmplaced_yields_linked_matches [OF len small room tracked pending]
  obtain c :: "(8, 8) container"
    where c: "build True 4096 3 [Emplace 5 2, Emplace 5 0, Emplace 5 1, InsertEmplaced 2] = Some (Inr c)"
    by blast
  have "case build True 4096 3 [Emplace 5 2, Emplace 5 0, Emplace 5 1, InsertEmplaced 2] of
      Some (Inr (c :: (8, 8) container)) \<Rightarrow>
        findEmplacedAll True c 0 = Some (Inr [2]) \<and> findEmplacedAll True c 1 = Some (Inr [2])
    | _ \<Rightarrow> False"
    by code_simp
  with c show ?thesis
    by simp
qed

text \<open>
  Claim C5. On a container with at least one linked entry, running the global cursor
  from \<^verbatim>\<open>begin()\<close> until it equals \<^verbatim>\<open>end()\<close> yields the chains of the buckets one
  after the other, in ascending bucket index, each chain most recent entry first. This
  list has as many slots as there are linked entries, no slot twice, and exactly the
  linked slots. The enumeration reads the container and does not change it, so a second
  one yields the same list.
\<close>

theorem traversal_visits_every_entry_once:
  fixes e :: "64 word"
  assumes len: "LENGTH('s::len) \<le> 64"
    and small: "unat e < unat (- 1 :: 's word) div 2"
    and room: "(create debug heap e :: error + ('s, 'h::len) container) \<noteq> Inl AllocationError"
    and tracked: "track (unat e) ([], []) ops = Some (linked, emplaced)"
    and nonempty: "linked \<noteq> []"
  shows "\<exists>c :: ('s, 'h::len) container.
           build debug heap e ops = Some (Inr c) \<and>
           traverse c =
             Some (Inr (concat (map (chainOf (m_bucketCount c) linked) [0 ..< unat (m_bucketCount c)]))) \<and>
           length (concat (map (chainOf (m_bucketCount c) linked) [0 ..< unat (m_bucketCount c)]))
             = length linked \<and>
           distinct (concat (map (chainOf (m_bucketCount c) linked) [0 ..< unat (m_bucketCount c)])) \<and>
           set (concat (map (chainOf (m_bucketCount c) linked) [0 ..< unat (m_bucketCount c)]))
             = snd ` set linked"
proof -
  from holds_build [OF len small room tracked]
  obtain c :: "('s, 'h) container"
    where c: "build debug heap e ops = Some (Inr c)" and inv: "holds debug c (linked, emplaced)"
    by blast
  from nonempty obtain x where "x \<in> set linked"
    by (cases linked) auto
  with holds_nonzero [OF inv, of x] have nz: "m_bucketCount c \<noteq> 0"
    by simp
  from holds_distinct [OF inv] have dl: "distinct (map snd linked)"
    by simp
  from c traverse_holds [OF inv nz] restFrom_length [OF nz, of linked]
    restFrom_distinct [OF nz dl] restFrom_set [OF nz, of linked]
  show ?thesis
    unfolding restFrom_def by auto
qed

theorem traversal_visits_every_entry_once_witness:
  "\<exists>c :: (8, 8) container.
     build True 4096 3 [Insert 7 0, Insert 2 1, Insert 13 2] = Some (Inr c) \<and>
     traverse c = Some (Inr [2, 0, 1])"
proof -
  have len: "LENGTH(8) \<le> 64"
    by simp
  have small: "unat (3 :: 64 word) < unat (- 1 :: 8 word) div 2"
    by (simp add: unat_max_word)
  have room: "(create True 4096 3 :: error + (8, 8) container) \<noteq> Inl AllocationError"
    by (simp add: create_eq unat_max_word)
  have tracked: "track (unat (3 :: 64 word)) ([], []) [Insert 7 0, Insert 2 1, Insert 13 (2 :: 8 word)]
      = Some ([(13, 2), (2, 1), (7, 0)], [])"
    by simp
  have nonempty: "[(13 :: 64 word, 2 :: 8 word), (2, 1), (7, 0)] \<noteq> []"
    by simp
  from traversal_visits_every_entry_once [OF len small room tracked nonempty]
  obtain c :: "(8, 8) container"
    where c: "build True 4096 3 [Insert 7 0, Insert 2 1, Insert 13 2] = Some (Inr c)"
      and t: "traverse c = Some (Inr (concat (map (chainOf (m_bucketCount c)
          [(13, 2), (2, 1), (7, 0)]) [0 ..< unat (m_bucketCount c)])))"
    by blast
  have "build True 4096 3 [Insert 7 0, Insert 2 1, Insert 13 2] =
      Some (Inr (\<lparr>m_bucketCount = 6, m_nodeCount = 3,
        m_bucketList = [\<lparr>first = - 1\<rparr>, \<lparr>first = 2\<rparr>, \<lparr>first = 1\<rparr>, \<lparr>first = - 1\<rparr>, \<lparr>first = - 1\<rparr>, \<lparr>first = - 1\<rparr>],
        m_nodeList = [\<lparr>hash = 0, next = - 1\<rparr>, \<lparr>hash = 0, next = - 1\<rparr>, \<lparr>hash = 0, next = 0\<rparr>]\<rparr> :: (8, 8) container))"
    by code_simp
  with c have bc: "m_bucketCount c = 6"
    by auto
  have "concat (map (chainOf (6 :: 8 word) [(13, 2), (2, 1), (7, 0)]) [0 ..< unat (6 :: 8 word)]) = [2, 0, 1]"
    by code_simp
  with c t bc show ?thesis
    by simp
qed

lemma restFrom_Nil: "restFrom n [] b = []"
  by (simp add: restFrom_def chainOf_Nil)

text \<open>
  Claim C6. After inserts into a container with at least one slot, \<^verbatim>\<open>clear()\<close>
  succeeds and leaves every bucket head the sentinel; \<^verbatim>\<open>find\<close> then returns the
  invalid cursor for every hash, \<^verbatim>\<open>begin()\<close> compares equal to \<^verbatim>\<open>end()\<close>, and
  \<^verbatim>\<open>nodes()\<close>, \<^verbatim>\<open>buckets()\<close> and both array sizes are what they were.
\<close>

theorem clear_empties_the_container:
  fixes e :: "64 word"
  assumes len: "LENGTH('s::len) \<le> 64"
    and small: "unat e < unat (- 1 :: 's word) div 2"
    and room: "(create debug heap e :: error + ('s, 'h::len) container) \<noteq> Inl AllocationError"
    and capacity: "e \<noteq> 0"
    and tracked: "track (unat e) ([], []) (map (\<lambda>(h, val). Insert h val) inserts) = Some g"
  shows "\<exists>c c' :: ('s, 'h::len) container.
           build debug heap e (map (\<lambda>(h, val). Insert h val) inserts) = Some (Inr c) \<and>
           clear_hc debug c = Inr c' \<and>
           (\<forall>b \<in> set (m_bucketList c'). first b = - 1) \<and>
           (\<forall>h. find_hc c' h = Some (Inr (- 1))) \<and>
           (\<exists>it. begin_hc c' = Inr it \<and> iterator_eq it end_hc) \<and>
           nodes c' = nodes c \<and> buckets c' = buckets c \<and>
           length (m_nodeList c') = length (m_nodeList c) \<and>
           length (m_bucketList c') = length (m_bucketList c)"
proof -
  obtain linked emplaced where g: "g = (linked, emplaced)"
    by (cases g)
  from holds_build [OF len small room tracked [unfolded g]]
  obtain c :: "('s, 'h) container"
    where c: "build debug heap e (map (\<lambda>(h, val). Insert h val) inserts) = Some (Inr c)"
      and inv: "holds debug c (linked, emplaced)"
      and bc: "unat (m_bucketCount c) = 2 * unat e"
    by blast
  from holds_clear [OF inv] obtain c'
    where c': "clear_hc debug c = Inr c'" and inv': "holds debug c' ([], [])"
      and bs: "m_bucketList c' = replicate (unat (m_bucketCount c)) poisonBucket"
      and counts: "m_bucketCount c' = m_bucketCount c" "m_nodeCount c' = m_nodeCount c"
    by blast
  from capacity have "unat e \<noteq> 0"
    by (simp add: unat_eq_zero)
  with bc counts have nz: "m_bucketCount c' \<noteq> 0"
    by auto
  have heads: "\<forall>b \<in> set (m_bucketList c'). first b = - 1"
    using bs by (simp add: poisonBucket_def)
  have finds: "find_hc c' h = Some (Inr (- 1))" for h
    using find_hc_holds [OF inv' nz, of h] by (simp add: chainOf_Nil)
  have u0: "unat (0 :: 's word) = 0"
    by simp
  from nz have z: "unat (0 :: 's word) < unat (m_bucketCount c')"
    by (simp add: unat_gt_0)
  from begin_loop_spec [OF inv' z, unfolded u0] obtain it
    where "begin_loop c' 0 = Inr it" "m_position it = - 1"
    by (auto simp: restFrom_Nil)
  then have beg: "\<exists>it. begin_hc c' = Inr it \<and> iterator_eq it end_hc"
    by (simp add: begin_hc_def iterator_eq_def end_hc_def)
  have sizes: "length (m_nodeList c') = length (m_nodeList c) \<and>
      length (m_bucketList c') = length (m_bucketList c)"
    using holds_validSizes [OF inv] holds_validSizes [OF inv'] counts by (simp add: validSizes_def)
  from c c' heads finds beg counts sizes show ?thesis
    unfolding nodes_def buckets_def by blast
qed

theorem clear_empties_the_container_witness:
  "\<exists>c c' :: (8, 8) container.
     build True 4096 3 [Insert 5 2, Insert 9 0] = Some (Inr c) \<and>
     clear_hc True c = Inr c' \<and>
     find_hc c 5 = Some (Inr 2) \<and> find_hc c 9 = Some (Inr 0) \<and>
     find_hc c' 5 = Some (Inr (- 1)) \<and> find_hc c' 9 = Some (Inr (- 1)) \<and>
     (\<exists>it. begin_hc c' = Inr it \<and> iterator_eq it end_hc) \<and>
     nodes c' = nodes c \<and> buckets c' = buckets c"
proof -
  have len: "LENGTH(8) \<le> 64"
    by simp
  have small: "unat (3 :: 64 word) < unat (- 1 :: 8 word) div 2"
    by (simp add: unat_max_word)
  have room: "(create True 4096 3 :: error + (8, 8) container) \<noteq> Inl AllocationError"
    by (simp add: create_eq unat_max_word)
  have capacity: "(3 :: 64 word) \<noteq> 0"
    by simp
  have tracked: "track (unat (3 :: 64 word)) ([], [])
      (map (\<lambda>(h, val). Insert h val) [(5, 2), (9, 0 :: 8 word)]) = Some ([(9, 0), (5, 2)], [])"
    by simp
  from clear_empties_the_container [OF len small room capacity tracked]
  obtain c c' :: "(8, 8) container"
    where c: "build True 4096 3 [Insert 5 2, Insert 9 0] = Some (Inr c)"
      and rest: "clear_hc True c = Inr c'" "find_hc c' 5 = Some (Inr (- 1))"
        "find_hc c' 9 = Some (Inr (- 1))" "\<exists>it. begin_hc c' = Inr it \<and> iterator_eq it end_hc"
        "nodes c' = nodes c" "buckets c' = buckets c"
    by auto
  have "case build True 4096 3 [Insert 5 2, Insert 9 0] of
      Some (Inr (c :: (8, 8) container)) \<Rightarrow> find_hc c 5 = Some (Inr 2) \<and> find_hc c 9 = Some (Inr 0)
    | _ \<Rightarrow> False"
    by code_simp
  with c rest show ?thesis
    by auto
qed

text \<open>Only the constructor throws: no other operation, on any container and with any
  arguments, ends in the capacity error or in the allocation error.\<close>

lemma findNext2_not_thrown:
  assumes major: "findNext2 c0 h0 p0 = Some r0"
  shows "\<not> thrown r0"
proof (rule findNext2.raw_induct [where P = "\<lambda>c h p r. \<not> thrown r", OF _ major])
  fix walk :: "('a, 'b) container \<Rightarrow> 'b word \<Rightarrow> 'a word \<Rightarrow> (error + 'a word) option"
  fix c h p r
  assume IH: "\<And>c' h' p' r'. walk c' h' p' = Some r' \<Longrightarrow> \<not> thrown r'"
    and eq: "(if p \<noteq> - 1 then
        (if \<not> unat p < length (m_nodeList c) then Some (Inl OutOfBounds)
         else if hash (m_nodeList c ! unat p) = h then Some (Inr p)
         else walk c h (next (m_nodeList c ! unat p)))
      else Some (Inr (- 1))) = Some r"
  from eq IH show "\<not> thrown r"
    by (auto simp: thrown_def split: if_splits)
qed

lemma remove_loop_not_thrown:
  assumes major: "remove_loop ns0 val0 cur0 = Some r0"
  shows "\<not> thrown r0"
proof (rule remove_loop.raw_induct [where P = "\<lambda>ns val cur r. \<not> thrown r", OF _ major])
  fix loop :: "('a, 'b) Node list \<Rightarrow> 'a word \<Rightarrow> 'a word \<Rightarrow> (error + ('a, 'b) Node list) option"
  fix ns val cur r
  assume IH: "\<And>ms v p r'. loop ms v p = Some r' \<Longrightarrow> \<not> thrown r'"
    and eq: "(if cur \<noteq> - 1 then
        (if \<not> unat cur < length ns then Some (Inl OutOfBounds)
         else if next (ns ! unat cur) = val then
           (if \<not> unat val < length ns then Some (Inl OutOfBounds)
            else loop (ns[unat cur := (ns ! unat cur)\<lparr>next := next (ns ! unat val)\<rparr>])
                   val (next (ns ! unat val)))
         else loop ns val (next (ns ! unat cur)))
      else Some (Inr ns)) = Some r"
  from eq IH show "\<not> thrown r"
    by (auto simp: thrown_def split: if_splits)
qed

lemma begin_loop_not_thrown: "\<not> thrown (begin_loop c bucket)"
proof (induction c bucket rule: begin_loop.induct)
  case (1 c bucket)
  then show ?case
    by (subst begin_loop.simps) (simp add: thrown_def)
qed

lemma nextElement_loop_not_thrown: "\<not> thrown (nextElement_loop c bucket)"
proof (induction c bucket rule: nextElement_loop.induct)
  case (1 c bucket)
  then show ?case
    by (subst nextElement_loop.simps) (simp add: thrown_def)
qed

lemma mutators_not_thrown:
  "\<not> thrown (insert_hc debug c h val)"
  "\<not> thrown (emplace debug c h val)"
  "\<not> thrown (insertEmplaced debug c val)"
  "\<not> thrown (clear_hc debug c)"
  "remove_hc debug c h val = Some r \<Longrightarrow> \<not> thrown r"
proof -
  show "\<not> thrown (insert_hc debug c h val)"
    by (simp add: insert_hc_def Let_def thrown_def)
  show "\<not> thrown (emplace debug c h val)"
    by (simp add: emplace_def thrown_def)
  show "\<not> thrown (insertEmplaced debug c val)"
    by (simp add: insertEmplaced_def Let_def thrown_def)
  show "\<not> thrown (clear_hc debug c)"
    by (simp add: clear_hc_def thrown_def)
  show "\<not> thrown r" if rm: "remove_hc debug c h val = Some r"
  proof (cases "remove_loop (m_nodeList c) val
                  (first (m_bucketList c ! unat (low h mod m_bucketCount c :: 'a word)))")
    case None
    with rm show ?thesis
      by (auto simp: remove_hc_def Let_def thrown_def split: if_splits)
  next
    case (Some q)
    from remove_loop_not_thrown [OF Some] Some rm show ?thesis
      by (auto simp: remove_hc_def Let_def thrown_def split: if_splits sum.splits)
  qed
qed

lemma queries_not_thrown:
  "find_hc c h = Some r \<Longrightarrow> \<not> thrown r"
  "findEmplaced debug c val = Some r \<Longrightarrow> \<not> thrown r"
  "findNext c val = Some r \<Longrightarrow> \<not> thrown r"
  "\<not> thrown (begin_hc c)"
  "\<not> thrown (localBegin c bk)"
  "\<not> thrown (Iterator_inc c it)"
  "\<not> thrown (LocalIterator_inc c it)"
proof -
  have f2: "\<not> thrown q" if "find2 c k pos = Some q" for k pos q
    using that findNext2_not_thrown [of c k _ q]
    by (auto simp: find2_def thrown_def split: if_splits)
  show "\<not> thrown r" if "find_hc c h = Some r"
    using that f2 by (auto simp: find_hc_def thrown_def split: if_splits)
  show "\<not> thrown r" if "findEmplaced debug c val = Some r"
    using that f2 by (auto simp: findEmplaced_def thrown_def split: if_splits)
  show "\<not> thrown r" if "findNext c val = Some r"
    using that findNext2_not_thrown [of c _ _ r]
    by (auto simp: findNext_def thrown_def split: if_splits)
  show "\<not> thrown (begin_hc c)"
    by (simp add: begin_hc_def begin_loop_not_thrown)
  show "\<not> thrown (localBegin c bk)"
    by (simp add: localBegin_def thrown_def)
  show inc: "\<not> thrown (Iterator_inc c it)"
    using nextElement_loop_not_thrown [of c "m_bucket it"]
    by (simp add: Iterator_inc_def nextElement_def thrown_def)
  from inc show "\<not> thrown (LocalIterator_inc c it)"
    by (auto simp: LocalIterator_inc_def Let_def thrown_def split: sum.splits)
qed

text \<open>
  Claim C7, as stated, fails in its last sentence. With 64-bit slots
  (\<^verbatim>\<open>GenericHashContainer<uint64_t, uint8_t>\<close>) an entry count of \<open>2 ^ 60\<close> is
  below the capacity threshold, and the bucket array would take \<open>2 ^ 64\<close> bytes: the
  allocation throws on every machine, here with the largest \<open>heap\<close> a 64-bit machine
  can have. And on the container that construction with zero entries gives, a caller
  who breaks no precondition gets no cursor from \<^verbatim>\<open>find\<close>, which divides by the
  bucket count 0.
\<close>

theorem allocation_fails_below_the_capacity_threshold:
  "(create False 18446744073709551615 1152921504606846976 :: error + (64, 8) container)
     = Inl AllocationError \<and>
   unat (1152921504606846976 :: 64 word) < unat (- 1 :: 64 word) div 2 \<and>
   build False 4096 0 [] =
     Some (Inr (\<lparr>m_bucketCount = 0, m_nodeCount = 0, m_bucketList = [], m_nodeList = []\<rparr>
                  :: (32, 32) container)) \<and>
   find_hc (\<lparr>m_bucketCount = 0, m_nodeCount = 0, m_bucketList = [], m_nodeList = []\<rparr>
              :: (32, 32) container) 7 = Some (Inl DivisionByZero)"
proof -
  have l64: "LENGTH(64) \<le> 64" and l32: "LENGTH(32) \<le> 64"
    by simp_all
  have big: "unat (1152921504606846976 :: 64 word) = 1152921504606846976"
    by simp
  have "(create False 18446744073709551615 1152921504606846976 :: error + (64, 8) container)
      = Inl AllocationError"
    using create_eq [OF l64, of False 18446744073709551615 1152921504606846976, where 'h = 8]
    by (simp add: unat_max_word big)
  moreover have "unat (1152921504606846976 :: 64 word) < unat (- 1 :: 64 word) div 2"
    by (simp add: unat_max_word big)
  moreover have "build False 4096 0 [] =
     Some (Inr (\<lparr>m_bucketCount = 0, m_nodeCount = 0, m_bucketList = [], m_nodeList = []\<rparr>
                  :: (32, 32) container))"
    using create_eq [OF l32, of False 4096 0, where 'h = 32]
    by (simp add: build_def unat_max_word)
  ultimately show ?thesis
    by (simp add: find_hc_def)
qed

text \<open>
  Claim C7, amended. Construction with entry count \<open>e\<close> ends in the capacity error
  exactly when \<open>e\<close> is at least the maximum of \<^verbatim>\<open>sizeType\<close> divided by 2;
  below that it ends in the allocation error when the allocator does not grant one of
  the two arrays, and otherwise yields a container with \<open>2 * e\<close> buckets and \<open>e\<close>
  nodes (neither count wraps around), every bucket head being the sentinel. A failed
  construction yields no container. No other operation ends in either of the two
  errors. On a container that has been constructed, a caller within the obligations
  meets no error: every sequence of mutating operations succeeds, and so does a search
  cursor run to its end from every linked slot and from \<^verbatim>\<open>findEmplaced\<close> of every
  emplaced slot, and the cursor of every bucket; when the container has at least one
  slot, so do \<^verbatim>\<open>find\<close>, its cursor run to its end and the enumeration from
  \<^verbatim>\<open>begin()\<close>.
\<close>

theorem capacity_and_allocation_errors:
  fixes e :: "64 word" and c0 :: "('s::len, 'h::len) container"
  assumes len: "LENGTH('s) \<le> 64"
  shows "(create debug heap e :: error + ('s, 'h) container) =
           (if unat (- 1 :: 's word) div 2 \<le> unat e then Inl CapacityError
            else if heap < 2 * unat e * (LENGTH('s) div 8)
                    \<or> heap < unat e * (2 * (max LENGTH('s) LENGTH('h) div 8))
            then Inl AllocationError
            else Inr \<lparr>m_bucketCount = ucast (2 * e),
                      m_nodeCount = ucast e,
                      m_bucketList = replicate (2 * unat e) poisonBucket,
                      m_nodeList = replicate (unat e)
                        (if debug then poisonNode else \<lparr>hash = 0, next = 0\<rparr>)\<rparr>)
         \<and> (unat e < unat (- 1 :: 's word) div 2 \<longrightarrow>
               unat (ucast (2 * e) :: 's word) = 2 * unat e \<and> unat (ucast e :: 's word) = unat e)
         \<and> \<not> thrown (insert_hc debug c0 h val)
         \<and> \<not> thrown (emplace debug c0 h val)
         \<and> \<not> thrown (insertEmplaced debug c0 val)
         \<and> \<not> thrown (clear_hc debug c0)
         \<and> (\<forall>r. remove_hc debug c0 h val = Some r \<longrightarrow> \<not> thrown r)
         \<and> (\<forall>r. find_hc c0 h = Some r \<longrightarrow> \<not> thrown r)
         \<and> (\<forall>r. findEmplaced debug c0 val = Some r \<longrightarrow> \<not> thrown r)
         \<and> (\<forall>r. findNext c0 val = Some r \<longrightarrow> \<not> thrown r)
         \<and> \<not> thrown (begin_hc c0)
         \<and> \<not> thrown (localBegin c0 bk)
         \<and> \<not> thrown (Iterator_inc c0 it)
         \<and> \<not> thrown (LocalIterator_inc c0 it)
         \<and> (unat e < unat (- 1 :: 's word) div 2 \<and>
              (create debug heap e :: error + ('s, 'h) container) \<noteq> Inl AllocationError \<and>
              track (unat e) ([], []) ops = Some (linked, emplaced) \<longrightarrow>
               (\<exists>c :: ('s, 'h) container.
                  build debug heap e ops = Some (Inr c) \<and>
                  (\<forall>x \<in> set linked. \<exists>ys. searchAll c (snd x) = Some (Inr ys)) \<and>
                  (\<forall>x \<in> set emplaced. \<exists>ys. findEmplacedAll debug c (snd x) = Some (Inr ys)) \<and>
                  (\<forall>b. unat b < unat (buckets c) \<longrightarrow> (\<exists>ys. traverseBucket c b = Some (Inr ys))) \<and>
                  (e \<noteq> 0 \<longrightarrow>
                     (\<exists>pos. find_hc c h = Some (Inr pos)) \<and>
                     (\<exists>xs. findAll c h = Some (Inr xs)) \<and>
                     (\<exists>xs. traverse c = Some (Inr xs)))))"
proof -
  have nowrap: "unat e < unat (- 1 :: 's word) div 2 \<longrightarrow>
          unat (ucast (2 * e) :: 's word) = 2 * unat e \<and> unat (ucast e :: 's word) = unat e"
    using small_entries [OF len, of e] by simp
  have valid: "\<exists>c :: ('s, 'h) container.
      build debug heap e ops = Some (Inr c) \<and>
      (\<forall>x \<in> set linked. \<exists>ys. searchAll c (snd x) = Some (Inr ys)) \<and>
      (\<forall>x \<in> set emplaced. \<exists>ys. findEmplacedAll debug c (snd x) = Some (Inr ys)) \<and>
      (\<forall>b. unat b < unat (buckets c) \<longrightarrow> (\<exists>ys. traverseBucket c b = Some (Inr ys))) \<and>
      (e \<noteq> 0 \<longrightarrow>
         (\<exists>pos. find_hc c h = Some (Inr pos)) \<and>
         (\<exists>xs. findAll c h = Some (Inr xs)) \<and>
         (\<exists>xs. traverse c = Some (Inr xs)))"
    if small: "unat e < unat (- 1 :: 's word) div 2"
      and room: "(create debug heap e :: error + ('s, 'h) container) \<noteq> Inl AllocationError"
      and tracked: "track (unat e) ([], []) ops = Some (linked, emplaced)"
  proof -
    from holds_build [OF len small room tracked]
    obtain c :: "('s, 'h) container"
      where c: "build debug heap e ops = Some (Inr c)" and inv: "holds debug c (linked, emplaced)"
        and bc: "unat (m_bucketCount c) = 2 * unat e"
      by blast
    have cursors: "\<forall>x \<in> set linked. \<exists>ys. searchAll c (snd x) = Some (Inr ys)"
    proof
      fix x
      assume "x \<in> set linked"
      then have "(fst x, snd x) \<in> set linked"
        by simp
      from searchAll_linked [OF inv this] show "\<exists>ys. searchAll c (snd x) = Some (Inr ys)"
        by blast
    qed
    have pendings: "\<forall>x \<in> set emplaced. \<exists>ys. findEmplacedAll debug c (snd x) = Some (Inr ys)"
    proof
      fix x
      assume "x \<in> set emplaced"
      then have "(fst x, snd x) \<in> set emplaced"
        by simp
      from findEmplacedAll_holds [OF inv this]
      show "\<exists>ys. findEmplacedAll debug c (snd x) = Some (Inr ys)"
        by blast
    qed
    have locals: "\<forall>b. unat b < unat (buckets c) \<longrightarrow> (\<exists>ys. traverseBucket c b = Some (Inr ys))"
      using traverseBucket_holds [OF inv] by (auto simp: buckets_def)
    have "(\<exists>pos. find_hc c h = Some (Inr pos)) \<and>
         (\<exists>xs. findAll c h = Some (Inr xs)) \<and>
         (\<exists>xs. traverse c = Some (Inr xs))" if "e \<noteq> 0"
    proof -
      from that have "unat e \<noteq> 0"
        by (simp add: unat_eq_zero)
      with bc have nz: "m_bucketCount c \<noteq> 0"
        by auto
      from find_hc_holds [OF inv nz, of h] findAll_holds [OF inv nz, of h] traverse_holds [OF inv nz]
      show ?thesis
        by blast
    qed
    with c cursors pendings locals show ?thesis
      by blast
  qed
  have r1: "\<forall>r. remove_hc debug c0 h val = Some r \<longrightarrow> \<not> thrown r"
    using mutators_not_thrown(5) by blast
  have r2: "\<forall>r. find_hc c0 h = Some r \<longrightarrow> \<not> thrown r"
    using queries_not_thrown(1) by blast
  have r3: "\<forall>r. findEmplaced debug c0 val = Some r \<longrightarrow> \<not> thrown r"
    using queries_not_thrown(2) by blast
  have r4: "\<forall>r. findNext c0 val = Some r \<longrightarrow> \<not> thrown r"
    using queries_not_thrown(3) by blast
  have r5: "unat e < unat (- 1 :: 's word) div 2 \<and>
      (create debug heap e :: error + ('s, 'h) container) \<noteq> Inl AllocationError \<and>
      track (unat e) ([], []) ops = Some (linked, emplaced) \<longrightarrow>
        (\<exists>c :: ('s, 'h) container.
           build debug heap e ops = Some (Inr c) \<and>
           (\<forall>x \<in> set linked. \<exists>ys. searchAll c (snd x) = Some (Inr ys)) \<and>
           (\<forall>x \<in> set emplaced. \<exists>ys. findEmplacedAll debug c (snd x) = Some (Inr ys)) \<and>
           (\<forall>b. unat b < unat (buckets c) \<longrightarrow> (\<exists>ys. traverseBucket c b = Some (Inr ys))) \<and>
           (e \<noteq> 0 \<longrightarrow>
              (\<exists>pos. find_hc c h = Some (Inr pos)) \<and>
              (\<exists>xs. findAll c h = Some (Inr xs)) \<and>
              (\<exists>xs. traverse c = Some (Inr xs))))"
  proof (intro impI)
    assume a: "unat e < unat (- 1 :: 's word) div 2 \<and>
      (create debug heap e :: error + ('s, 'h) container) \<noteq> Inl AllocationError \<and>
      track (unat e) ([], []) ops = Some (linked, emplaced)"
    then have a1: "unat e < unat (- 1 :: 's word) div 2"
      and a2: "(create debug heap e :: error + ('s, 'h) container) \<noteq> Inl AllocationError"
      and a3: "track (unat e) ([], []) ops = Some (linked, emplaced)"
      by simp_all
    from valid [OF a1 a2 a3]
    show "\<exists>c :: ('s, 'h) container.
           build debug heap e ops = Some (Inr c) \<and>
           (\<forall>x \<in> set linked. \<exists>ys. searchAll c (snd x) = Some (Inr ys)) \<and>
           (\<forall>x \<in> set emplaced. \<exists>ys. findEmplacedAll debug c (snd x) = Some (Inr ys)) \<and>
           (\<forall>b. unat b < unat (buckets c) \<longrightarrow> (\<exists>ys. traverseBucket c b = Some (Inr ys))) \<and>
           (e \<noteq> 0 \<longrightarrow>
              (\<exists>pos. find_hc c h = Some (Inr pos)) \<and>
              (\<exists>xs. findAll c h = Some (Inr xs)) \<and>
              (\<exists>xs. traverse c = Some (Inr xs)))" .
  qed
  show ?thesis
    apply (intro conjI)
                  apply (rule create_eq [OF len])
                 apply (rule nowrap)
                apply (rule mutators_not_thrown(1))
               apply (rule mutators_not_thrown(2))
              apply (rule mutators_not_thrown(3))
             apply (rule mutators_not_thrown(4))
            apply (rule r1)
           apply (rule r2)
          apply (rule r3)
         apply (rule r4)
        apply (rule queries_not_thrown(4))
       apply (rule queries_not_thrown(5))
      apply (rule queries_not_thrown(6))
     apply (rule queries_not_thrown(7))
    apply (rule r5)
    done
qed

theorem capacity_and_allocation_errors_witness:
  "(create True 4096 127 :: error + (8, 8) container) = Inl CapacityError
   \<and> (create True 100 126 :: error + (8, 8) container) = Inl AllocationError
   \<and> (create True 4096 126 :: error + (8, 8) container) =
       Inr \<lparr>m_bucketCount = 252, m_nodeCount = 126,
            m_bucketList = replicate 252 poisonBucket,
            m_nodeList = replicate 126 poisonNode\<rparr>
   \<and> (\<exists>c :: (8, 8) container.
         build True 4096 126 [Insert 300 125, Emplace 7 3, Remove 300 125] = Some (Inr c) \<and>
         (\<exists>ys. findEmplacedAll True c 3 = Some (Inr ys)) \<and>
         (\<exists>xs. traverse c = Some (Inr xs)))"
proof -
  have len: "LENGTH(8) \<le> 64"
    by simp
  have tracked: "track (unat (126 :: 64 word)) ([], [])
      [Insert 300 125, Emplace 7 3, Remove 300 (125 :: 8 word)] = Some ([], [(7, 3)])"
    by simp
  have small: "unat (126 :: 64 word) < unat (- 1 :: 8 word) div 2"
    by (simp add: unat_max_word)
  have nz: "(126 :: 64 word) \<noteq> 0"
    by simp
  note big = capacity_and_allocation_errors [OF len, of True 4096 127, where 'h = 8, THEN conjunct1]
  note short = capacity_and_allocation_errors [OF len, of True 100 126, where 'h = 8, THEN conjunct1]
  note ok = capacity_and_allocation_errors [OF len, of True 4096 126, where 'h = 8, THEN conjunct1]
  note all = capacity_and_allocation_errors [OF len, of True 4096 126 _ _ _ _ _
      "[Insert 300 125, Emplace 7 3, Remove 300 (125 :: 8 word)]" "[]" "[(7, 3)]", where 'h = 8]
  from big have c1: "(create True 4096 127 :: error + (8, 8) container) = Inl CapacityError"
    by (simp add: unat_max_word)
  from short have c2: "(create True 100 126 :: error + (8, 8) container) = Inl AllocationError"
    by (simp add: unat_max_word)
  from ok have c3: "(create True 4096 126 :: error + (8, 8) container) =
       Inr \<lparr>m_bucketCount = 252, m_nodeCount = 126,
            m_bucketList = replicate 252 poisonBucket,
            m_nodeList = replicate 126 poisonNode\<rparr>"
    by (simp add: unat_max_word)
  then have room: "(create True 4096 126 :: error + (8, 8) container) \<noteq> Inl AllocationError"
    by simp
  from all small room tracked nz have "\<exists>c :: (8, 8) container.
         build True 4096 126 [Insert 300 125, Emplace 7 3, Remove 300 125] = Some (Inr c) \<and>
         (\<exists>ys. findEmplacedAll True c 3 = Some (Inr ys)) \<and>
         (\<exists>xs. traverse c = Some (Inr xs))"
    by fastforce
  with c1 c2 c3 show ?thesis
    by blast
qed

text \<open>
  Claim C8. Construction with zero entries succeeds, whatever the allocator has, and
  gives a container without buckets. On it the bucket scan of \<^verbatim>\<open>begin()\<close> reads
  \<^verbatim>\<open>m_bucketList[0]\<close> before it compares the index with \<^verbatim>\<open>m_bucketCount\<close>: an
  access out of bounds. The theorem evaluates this for \<^verbatim>\<open>HashContainer\<close> (32-bit
  slots and fragments).
\<close>

theorem begin_reads_out_of_bounds_on_zero_capacity:
  "create debug heap 0 =
     Inr (\<lparr>m_bucketCount = 0, m_nodeCount = 0, m_bucketList = [], m_nodeList = []\<rparr>
            :: (32, 32) container) \<and>
   begin_hc (\<lparr>m_bucketCount = 0, m_nodeCount = 0, m_bucketList = [], m_nodeList = []\<rparr>
               :: (32, 32) container) = Inl OutOfBounds"
proof -
  have "LENGTH(32) \<le> 64"
    by simp
  from create_eq [OF this, of debug heap 0, where 'h = 32]
  have "create debug heap 0 =
     Inr (\<lparr>m_bucketCount = 0, m_nodeCount = 0, m_bucketList = [], m_nodeList = []\<rparr>
            :: (32, 32) container)"
    by (simp add: unat_max_word)
  moreover have "begin_hc (\<lparr>m_bucketCount = 0, m_nodeCount = 0, m_bucketList = [], m_nodeList = []\<rparr>
               :: (32, 32) container) = Inl OutOfBounds"
    by (simp add: begin_hc_def begin_loop.simps)
  ultimately show ?thesis
    by simp
qed

text \<open>
  Claim C9, as stated, fails. In a \<^verbatim>\<open>HashContainer\<close> with 3 entries (6 buckets),
  the hashes \<open>2 ^ 32\<close> and \<open>0\<close> are not congruent modulo 6 and both land in bucket 0,
  while \<open>2 ^ 32\<close> and \<open>4\<close> are congruent modulo 6 and land in buckets 0 and 4.
\<close>

theorem bucket_is_not_hash_mod_bucketCount:
  "build True 4096 3 [Insert 4294967296 0, Insert 0 1, Insert 4 2] =
     Some (Inr (\<lparr>m_bucketCount = 6, m_nodeCount = 3,
                  m_bucketList = [\<lparr>first = 1\<rparr>, \<lparr>first = - 1\<rparr>, \<lparr>first = - 1\<rparr>,
                                  \<lparr>first = - 1\<rparr>, \<lparr>first = 2\<rparr>, \<lparr>first = - 1\<rparr>],
                  m_nodeList = [\<lparr>hash = 1, next = - 1\<rparr>, \<lparr>hash = 0, next = 0\<rparr>,
                                \<lparr>hash = 0, next = - 1\<rparr>]\<rparr> :: (32, 32) container)) \<and>
   (4294967296 :: 64 word) mod 6 = 4 \<and> (0 :: 64 word) mod 6 = 0 \<and> (4 :: 64 word) mod 6 = 4"
  by code_simp

lemma unat_low: "unat (low h :: 's::len word) = unat h mod 2 ^ LENGTH('s)"
  by (simp add: low_def unsigned_ucast_eq take_bit_eq_mod)

text \<open>
  Claim C9, amended. The bucket that \<^verbatim>\<open>insert\<close>, \<^verbatim>\<open>emplace\<close> and \<^verbatim>\<open>find\<close> select
  is \<^verbatim>\<open>low(h) % m_bucketCount\<close>: the hash is first truncated to the width of
  \<^verbatim>\<open>sizeType\<close> and then reduced modulo the bucket count. This is the full hash
  modulo the bucket count when \<^verbatim>\<open>sizeType\<close> has 64 bits or the hash fits into
  \<^verbatim>\<open>sizeType\<close>.
\<close>

theorem bucket_is_low_part_mod_bucketCount:
  fixes c :: "('s::len, 'h::len) container"
  shows "unat (low h mod m_bucketCount c :: 's word) =
           (unat h mod 2 ^ LENGTH('s)) mod unat (m_bucketCount c) \<and>
         (\<forall>c'. insert_hc debug c h val = Inr c' \<longrightarrow>
            unat (low h mod m_bucketCount c :: 's word) < length (m_bucketList c) \<and>
            m_bucketList c' =
              (m_bucketList c)[unat (low h mod m_bucketCount c :: 's word) := \<lparr>first = val\<rparr>]) \<and>
         (\<forall>c'. emplace debug c h val = Inr c' \<longrightarrow>
            next (m_nodeList c' ! unat val) = low h mod m_bucketCount c) \<and>
         (m_bucketCount c \<noteq> 0 \<longrightarrow>
            find_hc c h =
              (if unat (low h mod m_bucketCount c :: 's word) < length (m_bucketList c)
               then findNext2 c (high h)
                      (first (m_bucketList c ! unat (low h mod m_bucketCount c :: 's word)))
               else Some (Inl OutOfBounds))) \<and>
         (LENGTH('s) = 64 \<or> unat h < 2 ^ LENGTH('s) \<longrightarrow>
            unat (low h mod m_bucketCount c :: 's word) = unat h mod unat (m_bucketCount c))"
proof -
  have a: "unat (low h mod m_bucketCount c :: 's word) =
      (unat h mod 2 ^ LENGTH('s)) mod unat (m_bucketCount c)"
    by (simp add: unat_mod unat_low)
  have b: "\<forall>c'. insert_hc debug c h val = Inr c' \<longrightarrow>
      unat (low h mod m_bucketCount c :: 's word) < length (m_bucketList c) \<and>
      m_bucketList c' =
        (m_bucketList c)[unat (low h mod m_bucketCount c :: 's word) := \<lparr>first = val\<rparr>]"
    by (auto simp: insert_hc_def Let_def split: if_splits)
  have d: "\<forall>c'. emplace debug c h val = Inr c' \<longrightarrow>
      next (m_nodeList c' ! unat val) = low h mod m_bucketCount c"
    by (auto simp: emplace_def split: if_splits)
  have f: "m_bucketCount c \<noteq> 0 \<longrightarrow>
      find_hc c h =
        (if unat (low h mod m_bucketCount c :: 's word) < length (m_bucketList c)
         then findNext2 c (high h)
                (first (m_bucketList c ! unat (low h mod m_bucketCount c :: 's word)))
         else Some (Inl OutOfBounds))"
    by (simp add: find_hc_def find2_def)
  have g: "LENGTH('s) = 64 \<or> unat h < 2 ^ LENGTH('s) \<longrightarrow>
      unat (low h mod m_bucketCount c :: 's word) = unat h mod unat (m_bucketCount c)"
  proof
    assume "LENGTH('s) = 64 \<or> unat h < 2 ^ LENGTH('s)"
    moreover have "unat h < 2 ^ LENGTH(64)"
      by (rule unsigned_less)
    ultimately have "unat h < 2 ^ LENGTH('s)"
      by auto
    with a show "unat (low h mod m_bucketCount c :: 's word) = unat h mod unat (m_bucketCount c)"
      by simp
  qed
  from a b d f g show ?thesis
    by blast
qed

theorem bucket_is_low_part_mod_bucketCount_witness:
  "(\<exists>c'. insert_hc True
     (\<lparr>m_bucketCount = 6, m_nodeCount = 3, m_bucketList = replicate 6 poisonBucket,
       m_nodeList = replicate 3 poisonNode\<rparr> :: (32, 32) container) 4294967296 0 = Inr c' \<and>
     m_bucketList c' = (replicate 6 poisonBucket)[0 := \<lparr>first = 0\<rparr>]) \<and>
   unat (low 4294967296 mod 6 :: 32 word) = 0"
proof -
  let ?c = "\<lparr>m_bucketCount = 6, m_nodeCount = 3, m_bucketList = replicate 6 poisonBucket,
       m_nodeList = replicate 3 poisonNode\<rparr> :: (32, 32) container"
  note inst = bucket_is_low_part_mod_bucketCount [of 4294967296 ?c True 0]
  have b: "unat (low 4294967296 mod m_bucketCount ?c :: 32 word) = 0"
    using inst [THEN conjunct1] by simp
  have "\<exists>c'. insert_hc True ?c 4294967296 0 = Inr c'"
    by (simp add: insert_hc_def poisonNode_def low_def)
  then obtain c' where ins: "insert_hc True ?c 4294967296 0 = Inr c'"
    by blast
  with inst [THEN conjunct2, THEN conjunct1] b
  have "m_bucketList c' = (replicate 6 poisonBucket)[0 := \<lparr>first = 0\<rparr>]"
    by simp
  with ins b show ?thesis
    by auto
qed

lemma isChain_link_range:
  "isChain ns p xs \<Longrightarrow>
   (p = - 1 \<or> unat p < length ns) \<and>
   (\<forall>x \<in> set xs. unat x < length ns \<and>
      (next (ns ! unat x) = - 1 \<or> unat (next (ns ! unat x)) < length ns))"
proof (induction xs arbitrary: p)
  case Nil
  then show ?case by simp
next
  case (Cons x xs)
  then have rest: "isChain ns (next (ns ! unat x)) xs" and px: "p = x" and xr: "unat x < length ns"
    by simp_all
  from Cons.IH [OF rest] px xr show ?case
    by auto
qed

lemma holds_wellFormed:
  fixes c :: "('s::len, 'h::len) container"
  assumes inv: "holds debug c (linked, emplaced)"
  shows "wellFormed c"
proof -
  let ?n = "m_bucketCount c"
  from holds_validSizes [OF inv] have len: "length (m_nodeList c) = unat (m_nodeCount c)"
    by (simp add: validSizes_def)
  from holds_distinct [OF inv] have dl: "distinct (map snd linked)"
    by simp
  have "distinct (concat (map (chainOf ?n linked) [0 ..< unat ?n]))"
  proof (cases "?n = 0")
    case True
    then show ?thesis by simp
  next
    case False
    from restFrom_distinct [OF False dl] show ?thesis
      by (simp add: restFrom_def)
  qed
  moreover have "isChain (m_nodeList c) (first (m_bucketList c ! b)) (chainOf ?n linked b) \<and>
           (first (m_bucketList c ! b) = - 1 \<or>
            unat (first (m_bucketList c ! b)) < unat (m_nodeCount c)) \<and>
           (\<forall>x \<in> set (chainOf ?n linked b).
              unat x < unat (m_nodeCount c) \<and>
              (next (m_nodeList c ! unat x) = - 1 \<or>
               unat (next (m_nodeList c ! unat x)) < unat (m_nodeCount c)))"
    if "b < unat ?n" for b
    using holds_chain [OF inv that] isChain_link_range [OF holds_chain [OF inv that]] len
    by simp
  ultimately show ?thesis
    unfolding wellFormed_def by blast
qed

lemma walks_terminate:
  fixes c :: "('s::len, 'h::len) container"
  assumes inv: "holds debug c (linked, emplaced)"
  shows "(\<forall>h. \<exists>r. find_hc c h = Some r)"
    and "(\<forall>h. \<exists>r. findAll c h = Some r)"
    and "(\<forall>h val. \<exists>r. remove_hc debug c h val = Some r)"
    and "(\<forall>x \<in> set linked. \<exists>r. searchAll c (snd x) = Some r)"
    and "(\<forall>x \<in> set emplaced. \<exists>r. findEmplacedAll debug c (snd x) = Some r)"
    and "(\<exists>r. traverse c = Some r)"
    and "(\<forall>bk. \<exists>r. traverseBucket c bk = Some r)"
proof -
  show "\<forall>h. \<exists>r. find_hc c h = Some r"
  proof
    fix h
    show "\<exists>r. find_hc c h = Some r"
    proof (cases "m_bucketCount c = 0")
      case True
      then show ?thesis by (simp add: find_hc_def)
    next
      case False
      from find_hc_holds [OF inv False, of h] show ?thesis by blast
    qed
  qed
  show "\<forall>h. \<exists>r. findAll c h = Some r"
  proof
    fix h
    show "\<exists>r. findAll c h = Some r"
    proof (cases "m_bucketCount c = 0")
      case True
      then show ?thesis by (simp add: findAll_def find_hc_def)
    next
      case False
      from findAll_holds [OF inv False, of h] show ?thesis by blast
    qed
  qed
  show "\<forall>h val. \<exists>r. remove_hc debug c h val = Some r"
    using remove_terminates [OF inv] by blast
  show "\<forall>x \<in> set linked. \<exists>r. searchAll c (snd x) = Some r"
  proof
    fix x
    assume "x \<in> set linked"
    then have "(fst x, snd x) \<in> set linked"
      by simp
    from searchAll_linked [OF inv this] show "\<exists>r. searchAll c (snd x) = Some r"
      by blast
  qed
  show "\<forall>x \<in> set emplaced. \<exists>r. findEmplacedAll debug c (snd x) = Some r"
  proof
    fix x
    assume "x \<in> set emplaced"
    then have "(fst x, snd x) \<in> set emplaced"
      by simp
    from findEmplacedAll_holds [OF inv this] show "\<exists>r. findEmplacedAll debug c (snd x) = Some r"
      by blast
  qed
  show "\<exists>r. traverse c = Some r"
  proof (cases "m_bucketCount c = 0")
    case True
    with holds_validSizes [OF inv] have "m_bucketList c = []"
      by (simp add: validSizes_def)
    then have "begin_hc c = Inl OutOfBounds"
      by (simp add: begin_hc_def begin_loop.simps)
    then show ?thesis
      by (simp add: traverse_def)
  next
    case False
    from traverse_holds [OF inv False] show ?thesis by blast
  qed
  show "\<forall>bk. \<exists>r. traverseBucket c bk = Some r"
  proof
    fix bk
    show "\<exists>r. traverseBucket c bk = Some r"
    proof (cases "unat bk < unat (m_bucketCount c)")
      case True
      from traverseBucket_holds [OF inv True] show ?thesis by blast
    next
      case False
      with holds_validSizes [OF inv] show ?thesis
        by (simp add: traverseBucket_def localBegin_def validSizes_def)
    qed
  qed
qed

text \<open>The link field of every node, for sequences that use the two-phase insertion as
  one step: each operation stores the sentinel, a chain head or the link of another node.\<close>

lemma linksOK_update:
  "linksOK n ns \<Longrightarrow> next v = - 1 \<or> unat (next v) < n \<Longrightarrow> linksOK n (ns[i := v])"
  unfolding linksOK_def by (metis length_list_update nth_list_update_eq nth_list_update_neq)

lemma linksOK_nth:
  "linksOK n ns \<Longrightarrow> i < length ns \<Longrightarrow> next (ns ! i) = - 1 \<or> unat (next (ns ! i)) < n"
  by (simp add: linksOK_def)

lemma remove_loop_links_aux:
  assumes major: "remove_loop ns0 val0 cur0 = Some y0"
  shows "\<forall>ns'. y0 = Inr ns' \<longrightarrow> linksOK n ns0 \<longrightarrow> linksOK n ns'"
proof (rule remove_loop.raw_induct
    [where P = "\<lambda>ns val cur y. \<forall>ns'. y = Inr ns' \<longrightarrow> linksOK n ns \<longrightarrow> linksOK n ns'",
     OF _ major])
  fix loop :: "('a, 'b) Node list \<Rightarrow> 'a word \<Rightarrow> 'a word \<Rightarrow> (error + ('a, 'b) Node list) option"
  fix ns val cur y
  assume IH: "\<And>ms v p r. loop ms v p = Some r \<Longrightarrow>
                \<forall>ns'. r = Inr ns' \<longrightarrow> linksOK n ms \<longrightarrow> linksOK n ns'"
    and eq: "(if cur \<noteq> - 1 then
        (if \<not> unat cur < length ns then Some (Inl OutOfBounds)
         else if next (ns ! unat cur) = val then
           (if \<not> unat val < length ns then Some (Inl OutOfBounds)
            else loop (ns[unat cur := (ns ! unat cur)\<lparr>next := next (ns ! unat val)\<rparr>])
                   val (next (ns ! unat val)))
         else loop ns val (next (ns ! unat cur)))
      else Some (Inr ns)) = Some y"
  show "\<forall>ns'. y = Inr ns' \<longrightarrow> linksOK n ns \<longrightarrow> linksOK n ns'"
  proof (intro allI impI)
    fix ns' assume y: "y = Inr ns'" and ok: "linksOK n ns"
    show "linksOK n ns'"
    proof (cases "cur = - 1")
      case True
      with eq y show ?thesis using ok by simp
    next
      case False
      note cur = this
      show ?thesis
      proof (cases "unat cur < length ns")
        case False
        with eq cur y show ?thesis by simp
      next
        case True
        note inr = this
        show ?thesis
        proof (cases "next (ns ! unat cur) = val")
          case False
          with eq cur inr have "loop ns val (next (ns ! unat cur)) = Some y" by simp
          from IH [OF this] y ok show ?thesis by simp
        next
          case True
          note hit = this
          show ?thesis
          proof (cases "unat val < length ns")
            case False
            with eq cur inr hit y show ?thesis by simp
          next
            case True
            with eq cur inr hit
            have step: "loop (ns[unat cur := (ns ! unat cur)\<lparr>next := next (ns ! unat val)\<rparr>])
                          val (next (ns ! unat val)) = Some y"
              by simp
            have "linksOK n (ns[unat cur := (ns ! unat cur)\<lparr>next := next (ns ! unat val)\<rparr>])"
              using linksOK_nth [OF ok True] by (intro linksOK_update [OF ok]) simp
            with IH [OF step] y show ?thesis by simp
          qed
        qed
      qed
    qed
  qed
qed

lemma poison_next: "next (poisonNode :: ('s::len, 'h::len) Node) = - 1"
  by (simp add: poisonNode_def)

lemma links_remove:
  fixes c :: "('s::len, 'h::len) container"
  assumes ok: "linksInRange c" and rm: "remove_hc debug c h val = Some (Inr c')"
  shows "linksInRange c'"
proof -
  let ?n = "unat (m_nodeCount c)"
  have ok': "linksOK ?n (m_nodeList c)" using ok by (simp add: linksInRange_def)
  have loop: "\<And>cur ns'. remove_loop (m_nodeList c) val cur = Some (Inr ns') \<Longrightarrow> linksOK ?n ns'"
    using remove_loop_links_aux ok' by blast
  have pz: "\<And>ns i. linksOK ?n ns \<Longrightarrow> linksOK ?n (ns[i := poisonNode])"
    by (rule linksOK_update) (simp_all add: poison_next)
  from rm have inr: "unat val < length (m_nodeList c)"
    by (simp add: remove_hc_def split: if_splits)
  show ?thesis
  proof (cases "hash (m_nodeList c ! unat val) = high h")
    case False
    with rm inr have "c' = c" by (simp add: remove_hc_def)
    with ok show ?thesis by simp
  next
    case True
    note same = this
    from rm inr same have nz: "m_bucketCount c \<noteq> 0"
      by (simp add: remove_hc_def split: if_splits)
    let ?b = "unat (low h mod m_bucketCount c :: 's word)"
    from rm inr same nz have bl: "?b < length (m_bucketList c)"
      by (simp add: remove_hc_def Let_def split: if_splits)
    show ?thesis
    proof (cases "first (m_bucketList c ! ?b) = val")
      case True
      with rm inr same nz bl
      have "c' = c\<lparr>m_bucketList := (m_bucketList c)[?b := \<lparr>first = next (m_nodeList c ! unat val)\<rparr>],
                    m_nodeList := (if debug then (m_nodeList c)[unat val := poisonNode]
                                   else m_nodeList c)\<rparr>"
        by (simp add: remove_hc_def Let_def)
      then show ?thesis using pz [OF ok'] ok' by (simp add: linksInRange_def)
    next
      case False
      with rm inr same nz bl
      obtain ns' where scan: "remove_loop (m_nodeList c) val (first (m_bucketList c ! ?b)) = Some (Inr ns')"
        and c': "c' = c\<lparr>m_nodeList := (if debug then ns'[unat val := poisonNode] else ns')\<rparr>"
        by (simp add: remove_hc_def Let_def split: option.splits sum.splits)
      from loop [OF scan] pz [OF loop [OF scan]] show ?thesis
        unfolding c' by (simp add: linksInRange_def)
    qed
  qed
qed

lemma links_clear:
  fixes c :: "('s::len, 'h::len) container"
  assumes ok: "linksInRange c" and cl: "clear_hc debug c = Inr c'"
  shows "linksInRange c'"
  using assms unfolding clear_hc_def linksInRange_def linksOK_def
  by (auto split: if_splits simp: nth_append poison_next)

lemma links_insert:
  fixes c :: "('s::len, 'h::len) container"
  assumes inv: "holds debug c (linked, emplaced)"
    and ok: "linksInRange c" and ins: "insert_hc debug c h val = Inr c'"
  shows "linksInRange c'"
proof -
  let ?b = "unat (low h mod m_bucketCount c :: 's word)"
  from ins have nz: "m_bucketCount c \<noteq> 0" and bl: "?b < length (m_bucketList c)"
    and c': "c' = c\<lparr>m_nodeList := (m_nodeList c)
                        [unat val := \<lparr>hash = high h, next = first (m_bucketList c ! ?b)\<rparr>],
                     m_bucketList := (m_bucketList c)[?b := \<lparr>first = val\<rparr>]\<rparr>"
    unfolding insert_hc_def Let_def by (auto split: if_splits)
  from inv have vs: "validSizes c" by (simp add: holds_def)
  from bl vs have "?b < unat (m_bucketCount c)" by (simp add: validSizes_def)
  from holds_chain [OF inv this] isChain_link_range
  have "first (m_bucketList c ! ?b) = - 1 \<or> unat (first (m_bucketList c ! ?b)) < length (m_nodeList c)"
    by blast
  with vs have "first (m_bucketList c ! ?b) = - 1 \<or> unat (first (m_bucketList c ! ?b)) < unat (m_nodeCount c)"
    by (simp add: validSizes_def)
  with ok show ?thesis unfolding c' linksInRange_def
    by (simp add: linksOK_update)
qed

lemma links_pair:
  fixes c :: "('s::len, 'h::len) container"
  assumes inv: "holds debug c (linked, emplaced)"
    and ok: "linksInRange c"
    and em: "emplace debug c h val = Inr c1"
    and ie: "insertEmplaced debug c1 val = Inr c2"
  shows "linksInRange c2"
proof -
  let ?b = "unat (low h mod m_bucketCount c :: 's word)"
  from em have nz: "m_bucketCount c \<noteq> 0" and valr: "unat val < length (m_nodeList c)"
    and c1: "c1 = c\<lparr>m_nodeList := (m_nodeList c)
                       [unat val := \<lparr>hash = high h, next = low h mod m_bucketCount c\<rparr>]\<rparr>"
    unfolding emplace_def by (auto split: if_splits)
  from ie valr have bl: "?b < length (m_bucketList c)"
    and c2: "m_nodeCount c2 = m_nodeCount c"
      "m_nodeList c2 = (m_nodeList c)
         [unat val := \<lparr>hash = high h, next = first (m_bucketList c ! ?b)\<rparr>]"
    unfolding insertEmplaced_def Let_def c1 by (auto split: if_splits)
  from inv have vs: "validSizes c" by (simp add: holds_def)
  from bl vs have "?b < unat (m_bucketCount c)" by (simp add: validSizes_def)
  from holds_chain [OF inv this] isChain_link_range
  have "first (m_bucketList c ! ?b) = - 1 \<or> unat (first (m_bucketList c ! ?b)) < length (m_nodeList c)"
    by blast
  with vs have "first (m_bucketList c ! ?b) = - 1 \<or> unat (first (m_bucketList c ! ?b)) < unat (m_nodeCount c)"
    by (simp add: validSizes_def)
  with ok show ?thesis unfolding linksInRange_def c2
    by (simp add: linksOK_update)
qed

lemma links_create:
  fixes c :: "('s::len, 'h::len) container"
  assumes cr: "create debug heap e = Inr c"
  shows "linksInRange c"
proof -
  from cr obtain bc :: "'s word" where
    cl: "clear_hc debug
           \<lparr>m_bucketCount = bc, m_nodeCount = (ucast e :: 's word),
            m_bucketList = replicate (unat bc) \<lparr>first = 0\<rparr>,
            m_nodeList = replicate (unat (ucast e :: 's word)) \<lparr>hash = 0 :: 'h word, next = 0\<rparr>\<rparr> = Inr c"
    unfolding create_def Let_def by (auto split: sum.splits if_splits)
  have "linksInRange
           \<lparr>m_bucketCount = bc, m_nodeCount = (ucast e :: 's word),
            m_bucketList = replicate (unat bc) \<lparr>first = 0\<rparr>,
            m_nodeList = replicate (unat (ucast e :: 's word)) \<lparr>hash = 0 :: 'h word, next = 0\<rparr>\<rparr>"
    by (simp add: linksInRange_def linksOK_def)
  from links_clear [OF this cl] show ?thesis .
qed

lemma links_run:
  fixes c :: "('s::len, 'h::len) container"
  assumes "holds debug c (linked, [])" and "linksInRange c" and "paired ops"
    and "track (unat (m_nodeCount c)) (linked, []) ops = Some g'"
    and "run debug c ops = Some (Inr c')"
  shows "linksInRange c'"
  using assms
proof (induction "length ops" arbitrary: ops c linked rule: less_induct)
  case less
  note inv = less.prems(1) and ok = less.prems(2) and pr = less.prems(3)
    and tr = less.prems(4) and rn = less.prems(5)
  show ?case
  proof (cases ops)
    case Nil
    with rn ok show ?thesis by simp
  next
    case (Cons x xs)
    note ops = this
    from tr ops obtain g1 where t1: "track_op (unat (m_nodeCount c)) (linked, []) x = Some g1"
      and trest: "track (unat (m_nodeCount c)) g1 xs = Some g'"
      by (auto split: option.splits)
    from holds_step [OF inv t1] obtain c1 where
      a1: "apply_op debug c x = Some (Inr c1)" and inv1: "holds debug c1 g1"
      and nc1: "m_nodeCount c1 = m_nodeCount c"
      by blast
    from rn ops a1 have rrest: "run debug c1 xs = Some (Inr c')" by simp
    have single: "linksInRange c'"
      if step: "linksInRange c1" and g1: "g1 = (l1, [])" and p1: "paired xs" for l1
      using less.hyps [of xs c1 l1] inv1 step p1 trest rrest nc1 g1 ops by simp
    show ?thesis
    proof (cases x)
      case (Insert h v)
      from a1 Insert have "insert_hc debug c h v = Inr c1" by simp
      from links_insert [OF inv ok this] have l1: "linksInRange c1" .
      from t1 Insert have "g1 = ((h, v) # linked, [])" by (simp split: if_splits)
      moreover from pr ops Insert have "paired xs" by simp
      ultimately show ?thesis using single l1 by blast
    next
      case (Remove h v)
      from a1 Remove have "remove_hc debug c h v = Some (Inr c1)" by simp
      from links_remove [OF ok this] have l1: "linksInRange c1" .
      from t1 Remove have "g1 = (filter (\<lambda>e. snd e \<noteq> v) linked, [])" by (simp split: if_splits)
      moreover from pr ops Remove have "paired xs" by simp
      ultimately show ?thesis using single l1 by blast
    next
      case Clear
      from a1 Clear have "clear_hc debug c = Inr c1" by simp
      from links_clear [OF ok this] have l1: "linksInRange c1" .
      from t1 Clear have "g1 = ([], [])" by simp
      moreover from pr ops Clear have "paired xs" by simp
      ultimately show ?thesis using single l1 by blast
    next
      case (InsertEmplaced v)
      with pr ops show ?thesis by simp
    next
      case (Emplace h v)
      from pr ops Emplace obtain ys where xs: "xs = InsertEmplaced v # ys" and p2: "paired ys"
        by (cases xs; cases "hd xs") auto
      from a1 Emplace have em: "emplace debug c h v = Inr c1" by simp
      from t1 Emplace have g1: "g1 = (linked, [(h, v)])" by (simp split: if_splits)
      from trest xs g1 nc1 have t2: "track_op (unat (m_nodeCount c1)) g1 (InsertEmplaced v) = Some ((h, v) # linked, [])"
        and trest2: "track (unat (m_nodeCount c1)) ((h, v) # linked, []) ys = Some g'"
        by simp_all
      from holds_step [OF inv1 t2] obtain c2 where
        a2: "apply_op debug c1 (InsertEmplaced v) = Some (Inr c2)"
        and inv2: "holds debug c2 ((h, v) # linked, [])"
        and nc2: "m_nodeCount c2 = m_nodeCount c1"
        by blast
      from a2 have ie: "insertEmplaced debug c1 v = Inr c2" by simp
      from links_pair [OF inv ok em ie] have l2: "linksInRange c2" .
      from rrest xs a2 have r2: "run debug c2 ys = Some (Inr c')" by simp
      from trest2 nc2 have "track (unat (m_nodeCount c2)) ((h, v) # linked, []) ys = Some g'" by simp
      from less.hyps [of ys c2 "(h, v) # linked", OF _ inv2 l2 p2 this r2] ops xs
      show ?thesis by simp
    qed
  qed
qed

lemma links_build:
  fixes e :: "64 word"
  assumes len: "LENGTH('s::len) \<le> 64"
    and small: "unat e < unat (- 1 :: 's word) div 2"
    and room: "(create debug heap e :: error + ('s, 'h::len) container) \<noteq> Inl AllocationError"
    and tr: "track (unat e) ([], []) ops = Some g"
    and pr: "paired ops"
    and bd: "build debug heap e ops = Some (Inr (c :: ('s, 'h::len) container))"
  shows "linksInRange c"
proof -
  from holds_create [OF len small room]
  obtain c0 :: "('s, 'h) container"
    where cr: "create debug heap e = Inr c0" and inv: "holds debug c0 ([], [])"
      and nc: "unat (m_nodeCount c0) = unat e"
    by blast
  from bd cr have rn: "run debug c0 ops = Some (Inr c)"
    by (simp add: build_def)
  from tr nc have "track (unat (m_nodeCount c0)) ([], []) ops = Some g"
    by simp
  from links_run [OF inv links_create [OF cr] pr this rn] show ?thesis .
qed

text \<open>
  Claim C10. After any operations within the caller's obligations on a fresh container,
  the chains are well formed, and every chain walk returns: \<^verbatim>\<open>find\<close>, a search
  cursor run to its end (from \<^verbatim>\<open>find\<close>, from \<^verbatim>\<open>findEmplaced\<close> or from any linked
  slot), \<^verbatim>\<open>remove\<close> with any arguments, and the global and bucket-scoped cursors run
  to their ends. When every \<^verbatim>\<open>emplace\<close> is followed at once by its
  \<^verbatim>\<open>insertEmplaced\<close>, the link field of every node of the array, on a chain or
  not, is the sentinel or a slot index below \<^verbatim>\<open>m_nodeCount\<close>.
\<close>

theorem chains_stay_well_formed:
  fixes e :: "64 word"
  assumes len: "LENGTH('s::len) \<le> 64"
    and small: "unat e < unat (- 1 :: 's word) div 2"
    and room: "(create debug heap e :: error + ('s, 'h::len) container) \<noteq> Inl AllocationError"
    and tracked: "track (unat e) ([], []) ops = Some (linked, emplaced)"
  shows "\<exists>c :: ('s, 'h::len) container.
           build debug heap e ops = Some (Inr c) \<and>
           wellFormed c \<and>
           (\<forall>h. \<exists>r. find_hc c h = Some r) \<and>
           (\<forall>h. \<exists>r. findAll c h = Some r) \<and>
           (\<forall>h val. \<exists>r. remove_hc debug c h val = Some r) \<and>
           (\<forall>x \<in> set linked. \<exists>r. searchAll c (snd x) = Some r) \<and>
           (\<forall>x \<in> set emplaced. \<exists>r. findEmplacedAll debug c (snd x) = Some r) \<and>
           (\<exists>r. traverse c = Some r) \<and>
           (\<forall>bk. \<exists>r. traverseBucket c bk = Some r) \<and>
           (paired ops \<longrightarrow> linksInRange c)"
proof -
  from holds_build [OF len small room tracked]
  obtain c :: "('s, 'h) container"
    where c: "build debug heap e ops = Some (Inr c)" and inv: "holds debug c (linked, emplaced)"
    by blast
  have "paired ops \<longrightarrow> linksInRange c"
    using links_build [OF len small room tracked _ c] by blast
  with c holds_wellFormed [OF inv] walks_terminate [OF inv] show ?thesis
    by blast
qed

theorem chains_stay_well_formed_witness:
  "\<exists>c :: (8, 8) container.
     build False 4096 3 [Insert 5 2, Emplace 5 0, InsertEmplaced 0, Insert 11 1, Remove 5 2, Clear,
                    Insert 4 2, Insert 10 0] = Some (Inr c) \<and>
     wellFormed c \<and> linksInRange c \<and> traverse c = Some (Inr [0, 2]) \<and>
     (\<forall>h. \<exists>r. find_hc c h = Some r)"
proof -
  have len: "LENGTH(8) \<le> 64"
    by simp
  have small: "unat (3 :: 64 word) < unat (- 1 :: 8 word) div 2"
    by (simp add: unat_max_word)
  have room: "(create False 4096 3 :: error + (8, 8) container) \<noteq> Inl AllocationError"
    by (simp add: create_eq unat_max_word)
  have tracked: "track (unat (3 :: 64 word)) ([], [])
      [Insert 5 2, Emplace 5 0, InsertEmplaced 0, Insert 11 1, Remove 5 2, Clear,
       Insert 4 2, Insert 10 (0 :: 8 word)] = Some ([(10, 0), (4, 2)], [])"
    by simp
  from chains_stay_well_formed [OF len small room tracked]
  obtain c :: "(8, 8) container"
    where c: "build False 4096 3 [Insert 5 2, Emplace 5 0, InsertEmplaced 0, Insert 11 1, Remove 5 2,
        Clear, Insert 4 2, Insert 10 0] = Some (Inr c)"
      and wf: "wellFormed c" "\<forall>h. \<exists>r. find_hc c h = Some r"
      and links: "paired [Insert 5 2, Emplace 5 0, InsertEmplaced 0, Insert 11 1, Remove 5 2,
        Clear, Insert 4 2, Insert 10 (0 :: 8 word)] \<longrightarrow> linksInRange c"
    by blast
  from links have "linksInRange c"
    by simp
  have "case build False 4096 3 [Insert 5 2, Emplace 5 0, InsertEmplaced 0, Insert 11 1, Remove 5 2,
        Clear, Insert 4 2, Insert 10 0] of
      Some (Inr (c :: (8, 8) container)) \<Rightarrow> traverse c = Some (Inr [0, 2])
    | _ \<Rightarrow> False"
    by code_simp
  with c wf \<open>linksInRange c\<close> show ?thesis
    by auto
qed

end
